theory Spec2Isabelle
  imports Complex_Main "HOL-Library.Sublist"
begin

section \<open>Encoder catalog and quality mapping (src/lib/encoders.ts)\<close>

subsection \<open>Data model\<close>

text \<open>
  \<^verbatim>\<open>EncoderId\<close> and \<^verbatim>\<open>EncoderType\<close> are string-literal unions in the source; they become
  datatypes with one constructor per literal, in the order of the source.
\<close>

datatype EncoderId =
    Avif | BrowserGif | BrowserJpeg | BrowserPng | Jxl | Mozjpeg | Oxipng | Qoi | Webp | Wp2
  | Original

datatype EncoderType = Squoosh | Sharp | Copy | Unsupported

datatype SharpFormat = SharpJpeg | SharpPng | SharpWebp | SharpAvif

text \<open>
  \<^verbatim>\<open>interface EncoderOption\<close>. The field \<^verbatim>\<open>id\<close> is called \<open>enc_id\<close> here (\<open>id\<close> is the
  identity function of HOL); the optional fields are options, \<open>None\<close> standing for
  \<^verbatim>\<open>undefined\<close> or an absent key.
\<close>

record EncoderOption =
  enc_id :: EncoderId
  label :: string
  ext :: string
  lossy :: bool
  supportsQuality :: bool
  encoderType :: EncoderType
  squooshCodec :: "string option"
  sharpFormat :: "SharpFormat option"
  isFallback :: "bool option"

record SquooshSupport =
  mozjpeg :: bool
  webp :: bool
  avif :: bool
  oxipng :: bool
  jxl :: bool
  wp2 :: bool

subsection \<open>mapQualityToAvifCq\<close>

text \<open>
  A quality is an integer (the contract of the quality mapper is an integer from 1 to
  100); the interpolation itself runs on fractions. The source computes in IEEE doubles.
  For an integer quality the exact value of \<^verbatim>\<open>cq\<close> is a multiple of 1/5 in the first
  three branches and of 1/12 in the last one, so it is either a half-integer that the
  doubles represent exactly (57.5 at quality 7, 52.5 at quality 19, both from the dyadic
  \<^verbatim>\<open>t\<close> 0.25 and 0.75) or at least 1/12 away from every half-integer, far more than the
  rounding error of three double operations. \<^verbatim>\<open>Math.round\<close> of the double is therefore
  \<^verbatim>\<open>Math.round\<close> of the exact fraction, which is what the model computes.

  \<^verbatim>\<open>Math.round(x)\<close> is the integer nearest to \<open>x\<close>, a tie going up: \<open>\<lfloor>x + 1/2\<rfloor>\<close>.
\<close>

definition Math_round :: "rat \<Rightarrow> int" where
  "Math_round x = \<lfloor>x + 1 / 2\<rfloor>"

definition mapQualityToAvifCq :: "int \<Rightarrow> int" where
  "mapQualityToAvifCq quality =
     (let q = min 100 (max 1 quality);
          cq = (if q \<ge> 75 then
                  (let t = (of_int q - 75) / 25 in 30 + (10 - 30) * t)
                else if q \<ge> 50 then
                  (let t = (of_int q - 50) / 25 in 40 + (30 - 40) * t)
                else if q \<ge> 25 then
                  (let t = (of_int q - 25) / 25 in 50 + (40 - 50) * t)
                else
                  (let t = (of_int q - 1) / 24 in 60 + (50 - 60) * t)) :: rat
      in min 63 (max 0 (Math_round cq)))"

text \<open>
  The value of the local variable \<^verbatim>\<open>cq\<close> for a quality already brought into 1..100,
  named so that the lemmas below can speak about it.
\<close>

definition avifCq :: "int \<Rightarrow> rat" where
  "avifCq q =
     (if q \<ge> 75 then 30 + (10 - 30) * ((of_int q - 75) / 25)
      else if q \<ge> 50 then 40 + (30 - 40) * ((of_int q - 50) / 25)
      else if q \<ge> 25 then 50 + (40 - 50) * ((of_int q - 25) / 25)
      else 60 + (50 - 60) * ((of_int q - 1) / 24))"

text \<open>
  The curve of the specification, stated from its words and not from the code: the
  straight lines through the breakpoints, quality 100 at cq 10, 75 at 30, 50 at 40,
  25 at 50 and 1 at 60. \<open>segment\<close> is the line through two points;
  \<open>avifBreakpointCurve\<close> picks the segment a quality lies on.
\<close>

definition segment :: "rat \<times> rat \<Rightarrow> rat \<times> rat \<Rightarrow> rat \<Rightarrow> rat" where
  "segment a b x = snd a + (snd b - snd a) * (x - fst a) / (fst b - fst a)"

definition avifBreakpointCurve :: "rat \<Rightarrow> rat" where
  "avifBreakpointCurve x =
     (if x \<le> 25 then segment (1, 60) (25, 50) x
      else if x \<le> 50 then segment (25, 50) (50, 40) x
      else if x \<le> 75 then segment (50, 40) (75, 30) x
      else segment (75, 30) (100, 10) x)"

subsection \<open>getMenuOptions\<close>

definition getMenuOptions :: "SquooshSupport \<Rightarrow> EncoderOption list" where
  "getMenuOptions support =
     (let mozjpegUsesSquoosh = mozjpeg support in
      [ \<lparr> enc_id = Avif, label = ''AVIF'', ext = ''avif'', lossy = True,
          supportsQuality = True,
          encoderType = (if avif support then Squoosh else Sharp),
          squooshCodec = (if avif support then Some ''avif'' else None),
          sharpFormat = (if avif support then None else Some SharpAvif),
          isFallback = None \<rparr>,
        \<lparr> enc_id = BrowserGif, label = ''Browser GIF'', ext = ''gif'', lossy = True,
          supportsQuality = False, encoderType = Unsupported,
          squooshCodec = None, sharpFormat = None, isFallback = None \<rparr>,
        \<lparr> enc_id = BrowserJpeg, label = ''Browser JPEG'', ext = ''jpg'', lossy = True,
          supportsQuality = True, encoderType = Sharp,
          squooshCodec = None, sharpFormat = Some SharpJpeg, isFallback = None \<rparr>,
        \<lparr> enc_id = BrowserPng, label = ''Browser PNG'', ext = ''png'', lossy = False,
          supportsQuality = False, encoderType = Sharp,
          squooshCodec = None, sharpFormat = Some SharpPng, isFallback = None \<rparr>,
        \<lparr> enc_id = Jxl, label = ''JPEG XL (beta)'', ext = ''jxl'', lossy = True,
          supportsQuality = True,
          encoderType = (if jxl support then Squoosh else Unsupported),
          squooshCodec = (if jxl support then Some ''jxl'' else None),
          sharpFormat = None, isFallback = None \<rparr>,
        \<lparr> enc_id = Mozjpeg,
          label = (if mozjpegUsesSquoosh then ''MozJPEG''
                   else ''JPEG fallback (not true MozJPEG)''),
          ext = ''jpg'', lossy = True, supportsQuality = True,
          encoderType = (if mozjpegUsesSquoosh then Squoosh else Sharp),
          squooshCodec = (if mozjpegUsesSquoosh then Some ''mozjpeg'' else None),
          sharpFormat = (if mozjpegUsesSquoosh then None else Some SharpJpeg),
          isFallback = Some (\<not> mozjpegUsesSquoosh) \<rparr>,
        \<lparr> enc_id = Oxipng, label = ''OxiPNG'', ext = ''png'', lossy = False,
          supportsQuality = False,
          encoderType = (if oxipng support then Squoosh else Unsupported),
          squooshCodec = (if oxipng support then Some ''oxipng'' else None),
          sharpFormat = None, isFallback = None \<rparr>,
        \<lparr> enc_id = Qoi, label = ''QOI'', ext = ''qoi'', lossy = False,
          supportsQuality = False, encoderType = Unsupported,
          squooshCodec = None, sharpFormat = None, isFallback = None \<rparr>,
        \<lparr> enc_id = Webp, label = ''WebP'', ext = ''webp'', lossy = True,
          supportsQuality = True,
          encoderType = (if webp support then Squoosh else Sharp),
          squooshCodec = (if webp support then Some ''webp'' else None),
          sharpFormat = (if webp support then None else Some SharpWebp),
          isFallback = None \<rparr>,
        \<lparr> enc_id = Wp2, label = ''WebP v2 (unstable)'', ext = ''wp2'', lossy = True,
          supportsQuality = True,
          encoderType = (if wp2 support then Squoosh else Unsupported),
          squooshCodec = (if wp2 support then Some ''wp2'' else None),
          sharpFormat = None, isFallback = None \<rparr>,
        \<lparr> enc_id = Original, label = ''Original image (copy)'', ext = ''original'',
          lossy = False, supportsQuality = False, encoderType = Copy,
          squooshCodec = None, sharpFormat = None, isFallback = None \<rparr> ])"

subsection \<open>getSquooshEncodeOptions\<close>

text \<open>
  The result is a \<^verbatim>\<open>Record<string, unknown>\<close> with at most one key, whose value is a
  number: an association list from key to number, \<open>[]\<close> for the empty object.
\<close>

definition getSquooshEncodeOptions :: "EncoderId \<Rightarrow> int \<Rightarrow> (string \<times> int) list" where
  "getSquooshEncodeOptions i quality =
     (case i of
        Mozjpeg \<Rightarrow> [(''quality'', quality)]
      | Webp \<Rightarrow> [(''quality'', quality)]
      | Avif \<Rightarrow> [(''cqLevel'', mapQualityToAvifCq quality)]
      | Oxipng \<Rightarrow> [(''level'', 4)]
      | Jxl \<Rightarrow> [(''quality'', quality)]
      | Wp2 \<Rightarrow> [(''quality'', quality)]
      | _ \<Rightarrow> [])"

section \<open>Paths (the functions of \<^verbatim>\<open>node:path\<close> that the source calls)\<close>

text \<open>
  The source computes every path with Node's \<^verbatim>\<open>path\<close> module, in its POSIX flavour (the
  separator is \<^verbatim>\<open>/\<close>). The module is not part of the repository; the functions below give
  the results of \<^verbatim>\<open>path.posix\<close> as Node's implementation computes them, written over the
  components of a path where Node scans character codes. A path is a \<open>string\<close>.

  \<open>splitSlash\<close> cuts a string at every separator: \<^verbatim>\<open>a//b/\<close> has the fields \<^verbatim>\<open>a\<close>, the empty
  string, \<^verbatim>\<open>b\<close> and the empty string. \<open>joinSlash\<close> puts a separator between components.
\<close>

type_synonym path = string

fun splitSlash :: "string \<Rightarrow> string list" where
  "splitSlash [] = [[]]"
| "splitSlash (c # cs) =
     (if c = CHR ''/'' then [] # splitSlash cs
      else (c # hd (splitSlash cs)) # tl (splitSlash cs))"

fun joinSlash :: "string list \<Rightarrow> string" where
  "joinSlash [] = []"
| "joinSlash [s] = s"
| "joinSlash (s # t # ss) = s @ CHR ''/'' # joinSlash (t # ss)"

text \<open>
  \<^verbatim>\<open>normalizeString(path, allowAboveRoot)\<close>: empty components and \<^verbatim>\<open>.\<close> are dropped; \<^verbatim>\<open>..\<close>
  removes the component before it, unless there is none or it is itself \<^verbatim>\<open>..\<close>, in which
  case \<^verbatim>\<open>..\<close> is kept when \<open>allowAboveRoot\<close> holds and dropped otherwise; every other
  component is kept. \<open>normStep\<close> is the effect of one component on the components kept
  so far.
\<close>

definition normStep :: "bool \<Rightarrow> string list \<Rightarrow> string \<Rightarrow> string list" where
  "normStep allowAboveRoot res seg =
     (if seg = [] \<or> seg = ''.'' then res
      else if seg = ''..'' then
        (if res \<noteq> [] \<and> last res \<noteq> ''..'' then butlast res
         else if allowAboveRoot then res @ [''..'']
         else res)
      else res @ [seg])"

definition normalizeSegments :: "bool \<Rightarrow> string \<Rightarrow> string list" where
  "normalizeSegments allowAboveRoot p = foldl (normStep allowAboveRoot) [] (splitSlash p)"

definition normalizeString :: "string \<Rightarrow> bool \<Rightarrow> string" where
  "normalizeString p allowAboveRoot = joinSlash (normalizeSegments allowAboveRoot p)"

text \<open>\<^verbatim>\<open>path.normalize\<close>.\<close>

definition path_normalize :: "path \<Rightarrow> path" where
  "path_normalize p =
     (if p = [] then ''.''
      else
        (let isAbsolute = (hd p = CHR ''/'');
             trailingSeparator = (last p = CHR ''/'');
             n = normalizeString p (\<not> isAbsolute)
         in if n = [] then
              (if isAbsolute then ''/'' else if trailingSeparator then ''./'' else ''.'')
            else
              (let n' = (if trailingSeparator then n @ ''/'' else n)
               in if isAbsolute then CHR ''/'' # n' else n')))"

text \<open>
  \<^verbatim>\<open>path.join(...args)\<close>: the non-empty arguments with a separator between them,
  normalized; \<^verbatim>\<open>.\<close> when there is none.
\<close>

definition path_join :: "path list \<Rightarrow> path" where
  "path_join args =
     (let parts = filter (\<lambda>arg. arg \<noteq> []) args
      in if parts = [] then ''.'' else path_normalize (joinSlash parts))"

text \<open>
  \<^verbatim>\<open>path.resolve(p)\<close> with one argument. \<open>cwd\<close> is the value of \<^verbatim>\<open>process.cwd()\<close>, which is
  consulted only when \<open>p\<close> is not absolute.
\<close>

definition path_resolve :: "path \<Rightarrow> path \<Rightarrow> path" where
  "path_resolve cwd p =
     (let resolvedPath =
            (if p \<noteq> [] \<and> hd p = CHR ''/'' then p @ ''/''
             else if p = [] then (if cwd = [] then [] else cwd @ ''/'')
             else if cwd = [] then p @ ''/''
             else cwd @ ''/'' @ p @ ''/'');
          resolvedAbsolute = (resolvedPath \<noteq> [] \<and> hd resolvedPath = CHR ''/'');
          n = normalizeString resolvedPath (\<not> resolvedAbsolute)
      in if resolvedAbsolute then CHR ''/'' # n
         else if n \<noteq> [] then n else ''.'')"

text \<open>
  \<^verbatim>\<open>path.relative(from, to)\<close>: both paths are resolved; the components they share at the
  front are dropped; the result climbs out of what is left of \<open>from\<close> with one \<^verbatim>\<open>..\<close> per
  component and then descends into what is left of \<open>to\<close>.
\<close>

fun dropCommon :: "string list \<Rightarrow> string list \<Rightarrow> string list \<times> string list" where
  "dropCommon (x # xs) (y # ys) = (if x = y then dropCommon xs ys else (x # xs, y # ys))"
| "dropCommon xs ys = (xs, ys)"

definition components :: "path \<Rightarrow> string list" where
  "components p = filter (\<lambda>seg. seg \<noteq> []) (splitSlash p)"

definition path_relative :: "path \<Rightarrow> path \<Rightarrow> path \<Rightarrow> path" where
  "path_relative cwd from to =
     (if from = to then []
      else
        (let from' = path_resolve cwd from;
             to' = path_resolve cwd to
         in if from' = to' then []
            else
              (case dropCommon (components from') (components to') of
                 (up, down) \<Rightarrow> joinSlash (replicate (length up) ''..'' @ down))))"

text \<open>
  \<^verbatim>\<open>path.dirname\<close>. Node scans from the end down to index 1: it skips the separators at
  the end, then the last component, and cuts at the separator before it. The first
  character is never scanned. Nothing to cut gives \<^verbatim>\<open>/\<close> for an absolute path and \<^verbatim>\<open>.\<close>
  otherwise; a cut right after the leading separator gives \<^verbatim>\<open>//\<close>.
\<close>

definition path_dirname :: "path \<Rightarrow> path" where
  "path_dirname p =
     (if p = [] then ''.''
      else
        (let hasRoot = (hd p = CHR ''/'');
             scanned = dropWhile (\<lambda>c. c \<noteq> CHR ''/'')
                         (dropWhile (\<lambda>c. c = CHR ''/'') (rev (tl p)))
         in if scanned = [] then (if hasRoot then ''/'' else ''.'')
            else if hasRoot \<and> tl scanned = [] then ''//''
            else hd p # rev (tl scanned)))"

text \<open>
  \<^verbatim>\<open>path.basename(p)\<close>: the last component, separators at the end ignored.
  \<open>splitExt\<close> is the split of a base name that \<^verbatim>\<open>path.parse\<close> and \<^verbatim>\<open>path.extname\<close> share: the
  extension starts at the last dot, and is empty when the base name has no dot, when its
  last dot is its first character, and when it is \<^verbatim>\<open>..\<close>.
\<close>

definition path_basename :: "path \<Rightarrow> string" where
  "path_basename p =
     rev (takeWhile (\<lambda>c. c \<noteq> CHR ''/'') (dropWhile (\<lambda>c. c = CHR ''/'') (rev p)))"

definition splitExt :: "string \<Rightarrow> string \<times> string" where
  "splitExt base =
     (if CHR ''.'' \<notin> set base then (base, [])
      else
        (let after = rev (takeWhile (\<lambda>c. c \<noteq> CHR ''.'') (rev base));
             stem = take (length base - length after - 1) base
         in if stem = [] \<or> base = ''..'' then (base, [])
            else (stem, CHR ''.'' # after)))"

text \<open>
  \<^verbatim>\<open>path.parse(p).name\<close> and \<^verbatim>\<open>path.extname(p)\<close>. The scan of \<^verbatim>\<open>path.parse\<close> stops before
  the leading separator of an absolute path and then takes the base name to start at
  index 0; for \<^verbatim>\<open>/..\<close> (with or without separators after it) this makes the second dot an
  extension and the name \<^verbatim>\<open>.\<close>. No other base name is split differently.
\<close>

definition path_parse_name :: "path \<Rightarrow> string" where
  "path_parse_name p =
     (if take 3 p = ''/..'' \<and> drop 3 p = replicate (length p - 3) (CHR ''/'') then ''.''
      else fst (splitExt (path_basename p)))"

definition path_extname :: "path \<Rightarrow> string" where
  "path_extname p = snd (splitExt (path_basename p))"

text \<open>
  The shape of the paths of a batch. A name is what a directory entry can be called:
  not empty, without separator, and neither \<^verbatim>\<open>.\<close> nor \<^verbatim>\<open>..\<close>. \<open>absolute names\<close> is the
  absolute, normalized path with these components (\<^verbatim>\<open>/\<close> when there is none), which is
  what \<^verbatim>\<open>path.resolve\<close> gives for the input root and what the directory scan gives for
  every file under it.
\<close>

definition isName :: "string \<Rightarrow> bool" where
  "isName s \<longleftrightarrow> s \<noteq> [] \<and> CHR ''/'' \<notin> set s \<and> s \<noteq> ''.'' \<and> s \<noteq> ''..''"

definition absolute :: "string list \<Rightarrow> path" where
  "absolute names = CHR ''/'' # joinSlash names"

section \<open>The runtime around the program\<close>

subsection \<open>Exceptions\<close>

text \<open>
  A thrown value is an \<^verbatim>\<open>Error\<close> with a message, a \<^verbatim>\<open>TypeError\<close>, or a system error of
  \<^verbatim>\<open>node:fs\<close> with its code and the path it is about. \<open>message\<close> is \<^verbatim>\<open>error.message\<close>; the
  text for a system error stands for Node's wording, which no property below depends on.
\<close>

datatype js_error = Error string | TypeError string | SystemError string path

fun message :: "js_error \<Rightarrow> string" where
  "message (Error m) = m"
| "message (TypeError m) = m"
| "message (SystemError code p) = code @ '': '' @ p"

subsection \<open>The environment of one run\<close>

text \<open>
  File contents are bytes; a \<open>char\<close> of HOL is one byte.
  Everything the program asks its runtime and its libraries for is fixed for one run:
  the process id, the clock and the random digits behind each temporary name, the
  working directory, the number of CPUs, the major version of Node, whether
  \<^verbatim>\<open>import('@squoosh/lib')\<close> resolves, what \<^verbatim>\<open>new ImagePool(n)\<close> does (\<open>None\<close>: it
  returns a pool), what an encode through the pool gives, what \<^verbatim>\<open>sharp\<close> gives, what
  \<^verbatim>\<open>JSON.parse\<close> gives (\<open>None\<close>: it throws), what \<^verbatim>\<open>String.prototype.toLowerCase\<close>
  gives, and the time a batch takes.
\<close>

type_synonym bytes = string

datatype encode_outcome = Throws js_error | EncodedWith "bytes option"

datatype sharp_options =
    JpegOptions int bool
  | PngOptions int bool
  | WebpOptions int
  | AvifOptions int

datatype json =
    JNull | JBool bool | JNum int | JStr string | JArr "json list"
  | JObj "(string \<times> json) list"

record env =
  pid :: nat
  dateNow :: "nat \<Rightarrow> nat"
  randomHex :: "nat \<Rightarrow> nat list"
  cwd :: path
  cpus :: nat
  nodeMajor :: nat
  importSquoosh :: bool
  newImagePool :: "int \<Rightarrow> js_error option"
  poolEncode :: "string \<Rightarrow> (string \<times> int) list \<Rightarrow> bytes \<Rightarrow> encode_outcome"
  sharpEncode :: "sharp_options \<Rightarrow> bytes \<Rightarrow> js_error + bytes"
  jsonParse :: "string \<Rightarrow> json option"
  toLowerCase :: "string \<Rightarrow> string"
  elapsedMs :: int

subsection \<open>The file system\<close>

text \<open>
  The world is the regular files and the directories that exist, each under its resolved
  path, and the number of temporary names drawn so far (the position in the stream of
  clock and random values). The root directory always exists and need not be listed.
  There are no links, owners or quotas, and names are case-sensitive.

  An operation of \<^verbatim>\<open>node:fs/promises\<close> takes the world and gives three things: the worlds
  another process can observe while it runs, each with the event that produced it; the
  value it resolves with, or the error it rejects with; and the world it leaves. A write
  is not atomic: the file is created empty and grows to the full content, and every
  length in between is observable. A rename is one step.
\<close>

record world =
  files :: "path \<Rightarrow> bytes option"
  dirs :: "path set"
  draws :: nat

datatype fs_event = Mkdir path | Write path bytes | Rename path path

type_synonym 'a io = "world \<Rightarrow> (fs_event \<times> world) list \<times> (js_error + 'a) \<times> world"

definition returnIO :: "'a \<Rightarrow> 'a io" where
  "returnIO x w = ([], Inr x, w)"

definition throwIO :: "js_error \<Rightarrow> 'a io" where
  "throwIO err w = ([], Inl err, w)"

text \<open>\<open>andThen m f\<close> is \<^verbatim>\<open>const x = await m; ... f(x)\<close>: a rejection of \<open>m\<close> ends the sequence.\<close>

definition andThen :: "'a io \<Rightarrow> ('a \<Rightarrow> 'b io) \<Rightarrow> 'b io" where
  "andThen m f w =
     (case m w of
        (seen, Inl err, w') \<Rightarrow> (seen, Inl err, w')
      | (seen, Inr x, w') \<Rightarrow>
          (case f x w' of (seen', r, w'') \<Rightarrow> (seen @ seen', r, w'')))"

text \<open>
  How the file system finds the entry of a path. The path is walked from the root, or
  from the working directory when it is relative; \<open>realpath\<close> is where the walk ends: empty
  components and \<^verbatim>\<open>.\<close> stay where they are, \<^verbatim>\<open>..\<close> goes up, and that is what
  \<^verbatim>\<open>path.resolve\<close> computes. The walk goes through every part of the path that ends just
  before a separator, and each of them must be a directory: \<open>ancestors\<close> lists these
  parts, from the shortest on. \<open>refused\<close> is the error of a walk that cannot be made: the
  first part that is not a directory is a regular file (ENOTDIR) or nothing (ENOENT).
  A path whose last component is empty, \<^verbatim>\<open>.\<close> or \<^verbatim>\<open>..\<close> (so also a path that ends in a
  separator) names a directory, never a file.
\<close>

definition realpath :: "env \<Rightarrow> path \<Rightarrow> path" where
  "realpath e p = path_resolve (cwd e) p"

definition directory :: "world \<Rightarrow> path \<Rightarrow> bool" where
  "directory w d \<longleftrightarrow> d = ''/'' \<or> d \<in> dirs w"

definition ancestors :: "path \<Rightarrow> path list" where
  "ancestors p =
     filter (\<lambda>a. a \<noteq> [])
       (map (\<lambda>k. joinSlash (take k (splitSlash p))) [1 ..< length (splitSlash p)])"

definition namesDirectory :: "path \<Rightarrow> bool" where
  "namesDirectory p \<longleftrightarrow> last (splitSlash p) \<in> {[], ''.'', ''..''}"

definition refused :: "env \<Rightarrow> world \<Rightarrow> path \<Rightarrow> js_error option" where
  "refused e w p =
     (if p = [] then Some (SystemError ''ENOENT'' p)
      else
        (case List.find (\<lambda>a. \<not> directory w (realpath e a)) (ancestors p) of
           None \<Rightarrow> None
         | Some a \<Rightarrow>
             Some (SystemError (if files w (realpath e a) \<noteq> None then ''ENOTDIR''
                                else ''ENOENT'') p)))"

text \<open>
  \<^verbatim>\<open>fs.mkdir(dirPath, { recursive: true })\<close>: makes every missing directory on the way and
  the directory itself, and succeeds when they exist already. It stops at a regular
  file, with the directories made up to there left in place. \<open>makeDirs\<close> gives the path
  it stopped at, if any, and the world. The directories made by one call are one event.
\<close>

fun makeDirs :: "env \<Rightarrow> path list \<Rightarrow> world \<Rightarrow> path option \<times> world" where
  "makeDirs e [] w = (None, w)"
| "makeDirs e (a # rest) w =
     (if files w (realpath e a) \<noteq> None then (Some a, w)
      else makeDirs e rest (w\<lparr>dirs := insert (realpath e a) (dirs w)\<rparr>))"

definition fs_mkdir_recursive :: "env \<Rightarrow> path \<Rightarrow> unit io" where
  "fs_mkdir_recursive e dirPath w =
     (if dirPath = [] then ([], Inl (SystemError ''ENOENT'' dirPath), w)
      else
        (case makeDirs e (ancestors dirPath @ [dirPath]) w of
           (Some a, w') \<Rightarrow>
             ([], Inl (SystemError (if a = dirPath then ''EEXIST'' else ''ENOTDIR'') dirPath), w')
         | (None, w') \<Rightarrow> ([(Mkdir dirPath, w')], Inr (), w')))"

text \<open>
  \<^verbatim>\<open>fs.writeFile(p, data)\<close>: when the walk is made and the path does not name a directory,
  the file is created or truncated and the content written front to back.
\<close>

definition writeStates :: "env \<Rightarrow> path \<Rightarrow> bytes \<Rightarrow> world \<Rightarrow> (fs_event \<times> world) list" where
  "writeStates e p data w =
     map (\<lambda>k. (Write p (take k data), w\<lparr>files := (files w)(realpath e p \<mapsto> take k data)\<rparr>))
       [0 ..< Suc (length data)]"

definition fs_writeFile :: "env \<Rightarrow> path \<Rightarrow> bytes \<Rightarrow> unit io" where
  "fs_writeFile e p data w =
     (case refused e w p of
        Some err \<Rightarrow> ([], Inl err, w)
      | None \<Rightarrow>
          if namesDirectory p \<or> directory w (realpath e p) then
            ([], Inl (SystemError ''EISDIR'' p), w)
          else (writeStates e p data w, Inr (), w\<lparr>files := (files w)(realpath e p \<mapsto> data)\<rparr>))"

text \<open>\<^verbatim>\<open>fs.readFile(p)\<close>.\<close>

definition fs_readFile :: "env \<Rightarrow> path \<Rightarrow> bytes io" where
  "fs_readFile e p w =
     (case refused e w p of
        Some err \<Rightarrow> ([], Inl err, w)
      | None \<Rightarrow>
          if directory w (realpath e p) then ([], Inl (SystemError ''EISDIR'' p), w)
          else
            (case files w (realpath e p) of
               None \<Rightarrow> ([], Inl (SystemError ''ENOENT'' p), w)
             | Some data \<Rightarrow> ([], Inr data, w)))"

text \<open>
  \<^verbatim>\<open>fs.copyFile(src, dest)\<close>: the content of the source, written to the destination. When
  both are the same file, nothing is written.
\<close>

definition fs_copyFile :: "env \<Rightarrow> path \<Rightarrow> path \<Rightarrow> unit io" where
  "fs_copyFile e src dest =
     andThen (fs_readFile e src) (\<lambda>data.
       if realpath e src = realpath e dest then returnIO ()
       else fs_writeFile e dest data)"

text \<open>
  \<^verbatim>\<open>fs.rename(oldPath, newPath)\<close> of a regular file (the program renames nothing else, and
  a directory at the old path is not moved here): when the walk to the new path is made
  and the new path does not name a directory, in one step the new path holds what the
  old path held and the old path is gone; a file at the new path is replaced. When the
  rename is refused, the old path keeps its file.
\<close>

definition fs_rename :: "env \<Rightarrow> path \<Rightarrow> path \<Rightarrow> unit io" where
  "fs_rename e oldPath newPath =
     andThen (fs_readFile e oldPath) (\<lambda>data w.
       case refused e w newPath of
         Some err \<Rightarrow> ([], Inl err, w)
       | None \<Rightarrow>
           if namesDirectory newPath then ([], Inl (SystemError ''ENOTDIR'' newPath), w)
           else if directory w (realpath e newPath) then
             ([], Inl (SystemError ''EISDIR'' newPath), w)
           else
             (let w' = w\<lparr>files := (files w)(realpath e oldPath := None,
                                             realpath e newPath \<mapsto> data)\<rparr>
              in ([(Rename oldPath newPath, w')], Inr (), w')))"

section \<open>Atomic writes and output paths (src/lib/fs.ts)\<close>

definition ensureDir :: "env \<Rightarrow> path \<Rightarrow> unit io" where
  "ensureDir e dirPath = fs_mkdir_recursive e dirPath"

text \<open>
  The stamp of a temporary name is
  \<^verbatim>\<open>`${process.pid}-${Date.now()}-${Math.random().toString(16).slice(2)}`\<close>: two numbers
  in decimal and the hexadecimal digits of the random fraction.
\<close>

function decimal :: "nat \<Rightarrow> string" where
  "decimal n =
     (if n < 10 then [''0123456789'' ! n]
      else decimal (n div 10) @ [''0123456789'' ! (n mod 10)])"
  by pat_completeness auto
termination
  by (relation "measure id") auto

declare decimal.simps [simp del]

definition hexDigits :: "nat list \<Rightarrow> string" where
  "hexDigits ds = map (\<lambda>d. ''0123456789abcdef'' ! (d mod 16)) ds"

definition stamp :: "env \<Rightarrow> nat \<Rightarrow> string" where
  "stamp e n = decimal (pid e) @ ''-'' @ decimal (dateNow e n) @ ''-'' @ hexDigits (randomHex e n)"

definition getTempPath :: "env \<Rightarrow> path \<Rightarrow> path io" where
  "getTempPath e targetPath w =
     ([], Inr (targetPath @ ''.tmp-'' @ stamp e (draws w)), w\<lparr>draws := Suc (draws w)\<rparr>)"

definition writeFileAtomic :: "env \<Rightarrow> path \<Rightarrow> bytes \<Rightarrow> unit io" where
  "writeFileAtomic e targetPath data =
     andThen (ensureDir e (path_dirname targetPath)) (\<lambda>_.
     andThen (getTempPath e targetPath) (\<lambda>tempPath.
     andThen (fs_writeFile e tempPath data) (\<lambda>_.
     fs_rename e tempPath targetPath)))"

definition copyFileAtomic :: "env \<Rightarrow> path \<Rightarrow> path \<Rightarrow> unit io" where
  "copyFileAtomic e sourcePath targetPath =
     andThen (ensureDir e (path_dirname targetPath)) (\<lambda>_.
     andThen (getTempPath e targetPath) (\<lambda>tempPath.
     andThen (fs_copyFile e sourcePath tempPath) (\<lambda>_.
     fs_rename e tempPath targetPath)))"

text \<open>
  \<open>tempPathAt e targetPath n\<close> is the path that \<^verbatim>\<open>getTempPath\<close> returns at the \<open>n\<close>-th draw.

  What the atomic writer promises, as a property of one call that places \<open>data\<close> at
  \<open>target\<close> through the temporary path \<open>temp\<close>, starting in the world \<open>w\<close>.
  \<open>writePlan\<close> is the full sequence of events: the parent directory is made, the
  temporary file grows to the content, the temporary file is renamed onto the target.
  The events seen are a front part of the plan, and all of it when the call succeeds, in
  which case the target holds the content. In every world seen the parent directory of
  the target exists, and in every world seen and in the world left the target holds what
  it held before the call or the whole content.
\<close>

definition tempPathAt :: "env \<Rightarrow> path \<Rightarrow> nat \<Rightarrow> path" where
  "tempPathAt e targetPath n = targetPath @ ''.tmp-'' @ stamp e n"

definition writePlan :: "path \<Rightarrow> path \<Rightarrow> bytes \<Rightarrow> fs_event list" where
  "writePlan target temp data =
     Mkdir (path_dirname target)
     # map (\<lambda>k. Write temp (take k data)) [0 ..< Suc (length data)]
     @ [Rename temp target]"

definition placedAtomically ::
  "env \<Rightarrow> path \<Rightarrow> path \<Rightarrow> bytes \<Rightarrow> world
     \<Rightarrow> (fs_event \<times> world) list \<times> (js_error + unit) \<times> world \<Rightarrow> bool" where
  "placedAtomically e target temp data w res =
     (case res of
        (seen, r, w') \<Rightarrow>
          prefix (map fst seen) (writePlan target temp data)
          \<and> (r = Inr () \<longrightarrow>
                 map fst seen = writePlan target temp data
                 \<and> files w' (realpath e target) = Some data)
          \<and> (\<forall>s \<in> set (map snd seen).
                 directory s (realpath e (path_dirname target))
                 \<and> (files s (realpath e target) = files w (realpath e target)
                      \<or> files s (realpath e target) = Some data))
          \<and> (files w' (realpath e target) = files w (realpath e target)
               \<or> files w' (realpath e target) = Some data))"

text \<open>
  \<^verbatim>\<open>buildOutputPath\<close>; its parameter object becomes a record. The three fields that it
  shares with the parameter object of \<^verbatim>\<open>processImages\<close> are a record of their own, which
  both extend.
\<close>

record roots =
  inputRoot :: path
  outputRoot :: path
  isDirectory :: bool

record output_params = roots +
  inputFile :: path
  outputExt :: string

definition buildOutputPath :: "env \<Rightarrow> output_params \<Rightarrow> path" where
  "buildOutputPath e params =
     (let baseName = path_parse_name (inputFile params);
          fileName = baseName @ ''-squoosh.'' @ outputExt params
      in if \<not> isDirectory params then path_join [outputRoot params, fileName]
         else
           (let relativePath = path_relative (cwd e) (inputRoot params) (inputFile params);
                relativeDir = path_dirname relativePath
            in path_join [outputRoot params, relativeDir, fileName]))"

text \<open>
  \<^verbatim>\<open>getOriginalExtension\<close>. \<^verbatim>\<open>toLowerCase\<close> is the environment's.
\<close>

definition getOriginalExtension :: "env \<Rightarrow> path \<Rightarrow> string" where
  "getOriginalExtension e f =
     (let x = toLowerCase e (path_extname f)
      in if x \<noteq> [] \<and> hd x = CHR ''.'' then tl x else x)"

section \<open>Capability detection (src/lib/encoders.ts)\<close>

text \<open>\<^verbatim>\<open>TINY_PNG\<close>: the 70 bytes that the base64 text of the source decodes to.\<close>

definition TINY_PNG :: bytes where
  "TINY_PNG = map char_of
     [137, 80, 78, 71, 13, 10, 26, 10, 0, 0, 0, 13, 73, 72, 68, 82, 0, 0, 0, 1, 0, 0, 0, 1,
      8, 6, 0, 0, 0, 31, 21, 196, 137, 0, 0, 0, 13, 73, 68, 65, 84, 120, 156, 99, 248, 207,
      192, 240, 31, 0, 5, 131, 2, 127, 148, 126, 162, 226, 0, 0, 0, 0, 73, 69, 78, 68, 174,
      66, 96, 130 :: nat]"

text \<open>
  \<^verbatim>\<open>trySquooshEncode\<close>: anything thrown by \<^verbatim>\<open>ingestImage\<close> or \<^verbatim>\<open>encode\<close> is caught and gives
  \<^verbatim>\<open>false\<close>; otherwise the result is \<^verbatim>\<open>Boolean(encoded?.binary?.length)\<close>, true exactly for
  a binary of non-zero length.
\<close>

definition trySquooshEncode :: "env \<Rightarrow> string \<Rightarrow> (string \<times> int) list \<Rightarrow> bool" where
  "trySquooshEncode e codec options =
     (case poolEncode e codec options TINY_PNG of
        Throws _ \<Rightarrow> False
      | EncodedWith None \<Rightarrow> False
      | EncodedWith (Some binary) \<Rightarrow> length binary \<noteq> 0)"

definition noSupport :: SquooshSupport where
  "noSupport = \<lparr> mozjpeg = False, webp = False, avif = False, oxipng = False,
                 jxl = False, wp2 = False \<rparr>"

text \<open>
  \<^verbatim>\<open>detectSquooshSupport\<close>. \<open>nodeMajor\<close> is
  \<^verbatim>\<open>Number(process.versions.node.split('.')[0] ?? 0)\<close>. The \<^verbatim>\<open>import\<close> is inside \<^verbatim>\<open>try\<close>;
  \<^verbatim>\<open>new ImagePoolCtor(1)\<close> on line 87 is not, so what the constructor throws leaves the
  function. The six probes run one after the other, each with its own \<^verbatim>\<open>try\<close>;
  \<^verbatim>\<open>pool.close()\<close> at the end does not change the result.
\<close>

definition detectSquooshSupport :: "env \<Rightarrow> js_error + SquooshSupport" where
  "detectSquooshSupport e =
     (if nodeMajor e \<ge> 20 then Inr noSupport
      else if \<not> importSquoosh e then Inr noSupport
      else
        (case newImagePool e 1 of
           Some err \<Rightarrow> Inl err
         | None \<Rightarrow>
             Inr \<lparr> mozjpeg = trySquooshEncode e ''mozjpeg'' [(''quality'', 75)],
                   webp = trySquooshEncode e ''webp'' [(''quality'', 75)],
                   avif = trySquooshEncode e ''avif'' [(''cqLevel'', 30)],
                   oxipng = trySquooshEncode e ''oxipng'' [(''level'', 2)],
                   jxl = trySquooshEncode e ''jxl'' [(''quality'', 75)],
                   wp2 = trySquooshEncode e ''wp2'' [(''quality'', 75)] \<rparr>))"

section \<open>The batch runner (src/lib/process.ts)\<close>

record QualityConfig =
  defaultQuality :: int
  overrides :: "EncoderId \<Rightarrow> int option"

record process_params = roots +
  inputFiles :: "path list"
  encoders :: "EncoderOption list"
  quality :: QualityConfig
  concurrency :: "int option"

text \<open>
  \<^verbatim>\<open>ProcessSummary\<close>. A failure is the pair of \<^verbatim>\<open>file\<close> and \<^verbatim>\<open>reason\<close>; an entry of
  \<^verbatim>\<open>unsupported\<close> is the triple of \<^verbatim>\<open>id\<close>, \<^verbatim>\<open>label\<close> and \<^verbatim>\<open>skipped\<close>.
\<close>

record ProcessSummary =
  totalInputs :: nat
  outputsByEncoder :: "EncoderId \<Rightarrow> nat"
  failures :: "(path \<times> string) list"
  unsupported :: "(EncoderId \<times> string \<times> nat) list"
  runtimeMs :: int

definition idString :: "EncoderId \<Rightarrow> string" where
  "idString i =
     (case i of
        Avif \<Rightarrow> ''avif'' | BrowserGif \<Rightarrow> ''browser-gif'' | BrowserJpeg \<Rightarrow> ''browser-jpeg''
      | BrowserPng \<Rightarrow> ''browser-png'' | Jxl \<Rightarrow> ''jxl'' | Mozjpeg \<Rightarrow> ''mozjpeg''
      | Oxipng \<Rightarrow> ''oxipng'' | Qoi \<Rightarrow> ''qoi'' | Webp \<Rightarrow> ''webp'' | Wp2 \<Rightarrow> ''wp2''
      | Original \<Rightarrow> ''original'')"

definition getQualityForEncoder :: "EncoderOption \<Rightarrow> QualityConfig \<Rightarrow> int" where
  "getQualityForEncoder encoder q =
     (case overrides q (enc_id encoder) of Some v \<Rightarrow> v | None \<Rightarrow> defaultQuality q)"

definition defaultConcurrency :: "env \<Rightarrow> int" where
  "defaultConcurrency e =
     (let cores = (if cpus e = 0 then 2 else int (cpus e))
      in min 8 (max 2 (cores - 1)))"

text \<open>
  \<^verbatim>\<open>pLimit(concurrency)\<close> of the \<^verbatim>\<open>p-limit\<close> package throws a \<^verbatim>\<open>TypeError\<close> unless the
  concurrency is an integer from 1 up. The call is outside every \<^verbatim>\<open>try\<close> of
  \<^verbatim>\<open>processImages\<close>.
\<close>

definition pLimit :: "int \<Rightarrow> js_error + int" where
  "pLimit c =
     (if c \<ge> 1 then Inr c
      else Inl (TypeError ''Expected `concurrency` to be a number from 1 and up''))"

text \<open>
  \<^verbatim>\<open>pipeline.toFile(tempPath)\<close> of \<^verbatim>\<open>sharp\<close>: the input file is read, encoded with the
  options chosen, and the result written to the path given.
\<close>

definition sharp_toFile :: "env \<Rightarrow> sharp_options \<Rightarrow> path \<Rightarrow> path \<Rightarrow> unit io" where
  "sharp_toFile e options inputPath dest =
     andThen (fs_readFile e inputPath) (\<lambda>input.
       case sharpEncode e options input of
         Inl err \<Rightarrow> throwIO err
       | Inr out \<Rightarrow> fs_writeFile e dest out)"

definition encodeWithSharp :: "env \<Rightarrow> EncoderOption \<Rightarrow> path \<Rightarrow> path \<Rightarrow> int \<Rightarrow> unit io" where
  "encodeWithSharp e encoder inputPath outputPath q =
     andThen (getTempPath e outputPath) (\<lambda>tempPath.
     andThen (ensureDir e (path_dirname outputPath)) (\<lambda>_.
     andThen (case enc_id encoder of
                BrowserJpeg \<Rightarrow> returnIO (JpegOptions q False)
              | Mozjpeg \<Rightarrow> returnIO (JpegOptions q True)
              | BrowserPng \<Rightarrow> returnIO (PngOptions 9 True)
              | Webp \<Rightarrow> returnIO (WebpOptions q)
              | Avif \<Rightarrow> returnIO (AvifOptions q)
              | _ \<Rightarrow> throwIO (Error (''Sharp encoder not configured for ''
                                       @ idString (enc_id encoder)))) (\<lambda>options.
     andThen (sharp_toFile e options inputPath tempPath) (\<lambda>_.
     fs_rename e tempPath outputPath))))"

text \<open>
  \<^verbatim>\<open>encodeWithSquoosh\<close>. \<^verbatim>\<open>!encoder.squooshCodec\<close> holds for a missing codec and for the
  empty string; \<^verbatim>\<open>!encoded?.binary\<close> holds when there is no binary (an empty binary is an
  object, and passes).
\<close>

definition encodeWithSquoosh :: "env \<Rightarrow> EncoderOption \<Rightarrow> bytes \<Rightarrow> path \<Rightarrow> int \<Rightarrow> unit io" where
  "encodeWithSquoosh e encoder inputBuffer outputPath q =
     (case squooshCodec encoder of
        None \<Rightarrow> throwIO (Error (''Missing codec for '' @ idString (enc_id encoder)))
      | Some codec \<Rightarrow>
          if codec = [] then
            throwIO (Error (''Missing codec for '' @ idString (enc_id encoder)))
          else
            (case poolEncode e codec (getSquooshEncodeOptions (enc_id encoder) q) inputBuffer of
               Throws err \<Rightarrow> throwIO err
             | EncodedWith None \<Rightarrow>
                 throwIO (Error (''Encoding failed for '' @ idString (enc_id encoder)))
             | EncodedWith (Some binary) \<Rightarrow> writeFileAtomic e outputPath binary))"

text \<open>
  The state of the batch while the tasks run: the counters and the failure list that the
  tasks share, the number of files completed, and the world. \<open>attempted\<close> is not a
  variable of the source: it records one entry per iteration of the loop over
  \<^verbatim>\<open>activeEncoders\<close> (lines 164 to 199), the file and the encoder of that iteration, so
  that the jobs of a batch can be spoken of.
\<close>

record run_state =
  outputs :: "EncoderId \<Rightarrow> nat"
  failed :: "(path \<times> string) list"
  completed :: nat
  attempted :: "(path \<times> EncoderId) list"
  now :: world

text \<open>
  The body of the \<^verbatim>\<open>try\<close> for one encoder: what it does to the world, whether it throws,
  and the input buffer afterwards (read at most once per file, and kept when the encode
  after it fails). The pool is \<open>None\<close> for \<^verbatim>\<open>null\<close>. An encoder type outside the three
  branches does nothing and does not throw.
\<close>

definition tryEncode ::
  "env \<Rightarrow> int option \<Rightarrow> EncoderOption \<Rightarrow> path \<Rightarrow> path \<Rightarrow> int \<Rightarrow> bytes option \<Rightarrow> world
     \<Rightarrow> ((fs_event \<times> world) list \<times> (js_error + unit) \<times> world) \<times> bytes option" where
  "tryEncode e pool encoder file outputPath q inputBuffer w =
     (case encoderType encoder of
        Copy \<Rightarrow> (copyFileAtomic e file outputPath w, inputBuffer)
      | Sharp \<Rightarrow> (encodeWithSharp e encoder file outputPath q w, inputBuffer)
      | Squoosh \<Rightarrow>
          (case pool of
             None \<Rightarrow> (throwIO (Error ''Squoosh pool unavailable'') w, inputBuffer)
           | Some _ \<Rightarrow>
               (case inputBuffer of
                  Some buffer \<Rightarrow>
                    (encodeWithSquoosh e encoder buffer outputPath q w, inputBuffer)
                | None \<Rightarrow>
                    (case fs_readFile e file w of
                       (seen, Inl err, w') \<Rightarrow> ((seen, Inl err, w'), None)
                     | (seen, Inr buffer, w') \<Rightarrow>
                         (encodeWithSquoosh e encoder buffer outputPath q w', Some buffer))))
      | Unsupported \<Rightarrow> (returnIO () w, inputBuffer))"

text \<open>The loop over \<^verbatim>\<open>activeEncoders\<close> inside one task.\<close>

fun forEncoders ::
  "env \<Rightarrow> process_params \<Rightarrow> int option \<Rightarrow> path \<Rightarrow> EncoderOption list \<Rightarrow> bytes option
     \<Rightarrow> run_state \<Rightarrow> run_state" where
  "forEncoders e params pool file [] inputBuffer st = st"
| "forEncoders e params pool file (encoder # rest) inputBuffer st =
     (let ext' = (if enc_id encoder = Original then getOriginalExtension e file
                  else ext encoder);
          outputPath = buildOutputPath e
            \<lparr> inputRoot = inputRoot params, outputRoot = outputRoot params,
              isDirectory = isDirectory params, inputFile = file, outputExt = ext' \<rparr>;
          q = getQualityForEncoder encoder (quality params)
      in case tryEncode e pool encoder file outputPath q inputBuffer (now st) of
           ((seen, Inr _, w'), inputBuffer') \<Rightarrow>
             forEncoders e params pool file rest inputBuffer'
               (st\<lparr> outputs := (outputs st)
                       (enc_id encoder := outputs st (enc_id encoder) + 1),
                     attempted := attempted st @ [(file, enc_id encoder)],
                     now := w' \<rparr>)
         | ((seen, Inl err, w'), inputBuffer') \<Rightarrow>
             forEncoders e params pool file rest inputBuffer'
               (st\<lparr> failed := failed st @ [(file, label encoder @ '': '' @ message err)],
                     attempted := attempted st @ [(file, enc_id encoder)],
                     now := w' \<rparr>))"

text \<open>
  The tasks, one per input file. They are run here one after the other in the order of
  \<^verbatim>\<open>inputFiles\<close>, which is the schedule of a limit of 1; with a larger limit the tasks
  interleave at their \<^verbatim>\<open>await\<close>s, which can change the order of the failure list and the
  intermediate worlds, but not which encoders are active or which are skipped. The
  progress line that a task prints when it is done is not modelled, nor is
  \<^verbatim>\<open>pool.close()\<close> after the last task.
\<close>

fun forFiles ::
  "env \<Rightarrow> process_params \<Rightarrow> int option \<Rightarrow> EncoderOption list \<Rightarrow> path list
     \<Rightarrow> run_state \<Rightarrow> run_state" where
  "forFiles e params pool activeEncoders [] st = st"
| "forFiles e params pool activeEncoders (file # rest) st =
     (let st' = forEncoders e params pool file activeEncoders None st
      in forFiles e params pool activeEncoders rest (st'\<lparr> completed := completed st' + 1 \<rparr>))"

text \<open>
  Lines 130 to 156: the active encoders, the skipped ones, and the pool. The pool is
  constructed only when an active encoder needs it; when the import or the constructor
  throws, the \<^verbatim>\<open>catch\<close> moves every squoosh encoder from the active list to the skipped
  one.
\<close>

definition skippedEntry :: "process_params \<Rightarrow> EncoderOption \<Rightarrow> EncoderId \<times> string \<times> nat" where
  "skippedEntry params enc = (enc_id enc, label enc, length (inputFiles params))"

definition planEncoders ::
  "env \<Rightarrow> int \<Rightarrow> process_params
     \<Rightarrow> int option \<times> EncoderOption list \<times> (EncoderId \<times> string \<times> nat) list" where
  "planEncoders e c params =
     (let activeEncoders =
            filter (\<lambda>enc. encoderType enc \<noteq> Unsupported) (encoders params);
          unsupported' =
            map (skippedEntry params)
              (filter (\<lambda>enc. encoderType enc = Unsupported) (encoders params));
          needsSquoosh = list_ex (\<lambda>enc. encoderType enc = Squoosh) activeEncoders
      in if needsSquoosh then
           (if importSquoosh e \<and> newImagePool e c = None then
              (Some c, activeEncoders, unsupported')
            else
              (let squooshEncoders =
                     filter (\<lambda>enc. encoderType enc = Squoosh) activeEncoders
               in (None,
                   filter (\<lambda>enc. encoderType enc \<noteq> Squoosh) activeEncoders,
                   unsupported' @ map (skippedEntry params) squooshEncoders)))
         else (None, activeEncoders, unsupported'))"

text \<open>
  \<^verbatim>\<open>processImages\<close>. Besides the summary that the source returns, the result shows the
  final value of \<^verbatim>\<open>activeEncoders\<close>, the iterations performed, and the world at the end.
\<close>

record batch_result =
  summary :: ProcessSummary
  activeSet :: "EncoderOption list"
  jobs :: "(path \<times> EncoderId) list"
  endWorld :: world

text \<open>\<^verbatim>\<open>params.concurrency ?? defaultConcurrency()\<close>.\<close>

definition chosenConcurrency :: "env \<Rightarrow> process_params \<Rightarrow> int" where
  "chosenConcurrency e params =
     (case concurrency params of Some n \<Rightarrow> n | None \<Rightarrow> defaultConcurrency e)"

definition processImages :: "env \<Rightarrow> process_params \<Rightarrow> world \<Rightarrow> js_error + batch_result" where
  "processImages e params w =
     (let c = chosenConcurrency e params
      in case pLimit c of
           Inl err \<Rightarrow> Inl err
         | Inr _ \<Rightarrow>
             (case planEncoders e c params of
                (pool, activeEncoders, unsupported') \<Rightarrow>
                  (let st = forFiles e params pool activeEncoders (inputFiles params)
                              \<lparr> outputs = (\<lambda>_. 0), failed = [], completed = 0,
                                attempted = [], now = w \<rparr>
                   in Inr \<lparr> summary =
                              \<lparr> totalInputs = length (inputFiles params),
                                outputsByEncoder = outputs st,
                                failures = failed st,
                                unsupported = unsupported',
                                runtimeMs = elapsedMs e \<rparr>,
                            activeSet = activeEncoders,
                            jobs = attempted st,
                            endWorld = now st \<rparr>)))"

section \<open>The saved configuration (the command-line entry point)\<close>

text \<open>
  \<^verbatim>\<open>loadSavedConfig\<close> returns whatever \<^verbatim>\<open>JSON.parse\<close> gives, cast to \<^verbatim>\<open>SavedConfig\<close> without
  a check, and \<^verbatim>\<open>null\<close> (\<open>JNull\<close>) when reading or parsing throws. A parsed value is a
  \<open>json\<close>; the properties of an object are listed once each.
\<close>

definition loadSavedConfig :: "env \<Rightarrow> path \<Rightarrow> world \<Rightarrow> json" where
  "loadSavedConfig e configPath w =
     (case fs_readFile e configPath w of
        (_, Inl _, _) \<Rightarrow> JNull
      | (_, Inr raw, _) \<Rightarrow>
          (case jsonParse e raw of
             None \<Rightarrow> JNull
           | Some v \<Rightarrow> v))"

text \<open>
  What JavaScript does with a parsed value: \<open>truthy\<close> is the test of \<^verbatim>\<open>if (v)\<close>;
  \<open>property v k\<close> is \<^verbatim>\<open>v.k\<close> for a value that is not \<^verbatim>\<open>null\<close> and a key that no
  prototype defines (\<^verbatim>\<open>selectedIds\<close>, \<^verbatim>\<open>quality\<close>), \<open>None\<close> standing for \<^verbatim>\<open>undefined\<close>.
\<close>

definition truthy :: "json \<Rightarrow> bool" where
  "truthy v =
     (case v of
        JNull \<Rightarrow> False
      | JBool b \<Rightarrow> b
      | JNum n \<Rightarrow> n \<noteq> 0
      | JStr s \<Rightarrow> s \<noteq> []
      | JArr _ \<Rightarrow> True
      | JObj _ \<Rightarrow> True)"

definition property :: "json \<Rightarrow> string \<Rightarrow> json option" where
  "property v k = (case v of JObj kvs \<Rightarrow> map_of kvs k | _ \<Rightarrow> None)"

text \<open>
  Lines 246 to 261 of \<^verbatim>\<open>main\<close>: the selection and the quality taken from the saved
  configuration under \<^verbatim>\<open>--yes\<close>. \<^verbatim>\<open>savedConfig.selectedIds.filter(...)\<close> throws a
  \<^verbatim>\<open>TypeError\<close> unless \<^verbatim>\<open>selectedIds\<close> is an array: \<^verbatim>\<open>undefined\<close> and \<^verbatim>\<open>null\<close> have no
  properties to read, and no other value has a \<^verbatim>\<open>filter\<close> that is a function (the messages
  are those of V8 from Node 16.9 on; \<open>quoted\<close> puts a name between single quotes). The
  callback keeps an element when it
  is strictly equal to the id of a menu option, that is, when it is that string. The
  result is the pair of \<^verbatim>\<open>selection\<close> and \<^verbatim>\<open>quality\<close>, the empty list and \<open>None\<close> being
  their initial values, with which \<^verbatim>\<open>main\<close> goes on to prompt.
\<close>

definition savedIds :: "EncoderOption list \<Rightarrow> json list \<Rightarrow> EncoderId list" where
  "savedIds menuOptions ids =
     concat (map (\<lambda>v. case v of
                         JStr s \<Rightarrow>
                           (case List.find (\<lambda>opt. idString (enc_id opt) = s) menuOptions of
                              Some opt \<Rightarrow> [enc_id opt]
                            | None \<Rightarrow> [])
                       | _ \<Rightarrow> []) ids)"

definition quoted :: "string \<Rightarrow> string" where
  "quoted s = char_of (39 :: nat) # s @ [char_of (39 :: nat)]"

definition main_savedSelection ::
  "bool \<Rightarrow> json \<Rightarrow> EncoderOption list \<Rightarrow> js_error + (EncoderId list \<times> json option)" where
  "main_savedSelection yes savedConfig menuOptions =
     (if yes then
        (if truthy savedConfig then
           (case property savedConfig ''selectedIds'' of
              Some (JArr ids) \<Rightarrow>
                Inr (savedIds menuOptions ids, property savedConfig ''quality'')
            | Some JNull \<Rightarrow>
                Inl (TypeError (''Cannot read properties of null (reading '' @ quoted ''filter''
                                @ '')''))
            | Some _ \<Rightarrow> Inl (TypeError ''savedConfig.selectedIds.filter is not a function'')
            | None \<Rightarrow>
                Inl (TypeError (''Cannot read properties of undefined (reading ''
                                @ quoted ''filter'' @ '')'')))
         else Inr ([], None))
      else Inr ([], None))"

section \<open>Concrete runs\<close>

text \<open>
  An environment on Node 16 in which \<^verbatim>\<open>@squoosh/lib\<close> works and every codec returns its
  input; \<^verbatim>\<open>JSON.parse\<close> is given on the one text used below, and \<^verbatim>\<open>toLowerCase\<close> on
  the letters A to Z (the bytes 65 to 90), which is what it does to the ASCII names used
  below. In the second environment the module can be imported but the \<^verbatim>\<open>ImagePool\<close>
  constructor throws. In the third the clock stands still and the random digits repeat.
\<close>

definition asciiLowerCase :: "string \<Rightarrow> string" where
  "asciiLowerCase s =
     map (\<lambda>c. let n = (of_char c :: nat)
              in if 65 \<le> n \<and> n \<le> 90 then char_of (n + 32) else c) s"

definition envNode16 :: env where
  "envNode16 =
     \<lparr> pid = 1, dateNow = (\<lambda>n. n), randomHex = (\<lambda>n. [n]), cwd = ''/'', cpus = 4,
       nodeMajor = 16, importSquoosh = True,
       newImagePool = (\<lambda>n. None),
       poolEncode = (\<lambda>codec options input. EncodedWith (Some input)),
       sharpEncode = (\<lambda>options input. Inr input),
       jsonParse = (\<lambda>raw. if raw = ''{}'' then Some (JObj []) else None),
       toLowerCase = asciiLowerCase,
       elapsedMs = 0 \<rparr>"

definition envPoolCtorThrows :: env where
  "envPoolCtorThrows =
     envNode16\<lparr> newImagePool := (\<lambda>n. Some (Error ''worker threads unavailable'')) \<rparr>"

definition envClockStuck :: env where
  "envClockStuck = envNode16\<lparr> dateNow := (\<lambda>n. 0), randomHex := (\<lambda>n. [7]) \<rparr>"


text \<open>
  A folder of three images, and a batch over it with the encoders picked from the menu as
  \<^verbatim>\<open>main\<close> picks them (\<^verbatim>\<open>menuOptions.filter((option) => selection.includes(option.id))\<close>).
\<close>

definition batchOfThree :: "SquooshSupport \<Rightarrow> EncoderId list \<Rightarrow> process_params" where
  "batchOfThree support selection =
     \<lparr> inputRoot = ''/in'', outputRoot = ''/out'', isDirectory = True,
       inputFiles = [''/in/a.png'', ''/in/sub/b.png'', ''/in/c.jpg''],
       encoders = filter (\<lambda>opt. enc_id opt \<in> set selection) (getMenuOptions support),
       quality = \<lparr> defaultQuality = 75, overrides = (\<lambda>_. None) \<rparr>,
       concurrency = None \<rparr>"

definition worldOfThree :: world where
  "worldOfThree =
     \<lparr> files = [''/in/a.png'' \<mapsto> ''A'', ''/in/sub/b.png'' \<mapsto> ''B'', ''/in/c.jpg'' \<mapsto> ''C''],
       dirs = {''/in'', ''/in/sub'', ''/out''}, draws = 0 \<rparr>"

text \<open>An output folder whose saved configuration is the JSON text \<^verbatim>\<open>{}\<close>.\<close>

definition worldEmptyConfig :: world where
  "worldEmptyConfig =
     \<lparr> files = [''/out/.squoosh-last.json'' \<mapsto> ''{}''], dirs = {''/out''}, draws = 0 \<rparr>"

text \<open>
  A second run over the same folder: the output of the first run is still there, and the
  input has changed since.
\<close>

definition worldOverwrite :: world where
  "worldOverwrite =
     \<lparr> files = [''/out/a-squoosh.webp'' \<mapsto> ''old'', ''/in/a.webp'' \<mapsto> ''new''],
       dirs = {''/in'', ''/out''}, draws = 0 \<rparr>"


text \<open>
  The same folder after a run that was interrupted before its rename: the temporary file
  of the next draw is there already, with the new content.
\<close>

definition worldStaleTemp :: world where
  "worldStaleTemp =
     worldOverwrite\<lparr> files := (files worldOverwrite)
                                  (''/out/a-squoosh.webp.tmp-1-0-0'' \<mapsto> ''new'') \<rparr>"
section \<open>Properties of the quality mapping\<close>

lemma Math_round_mono: "x \<le> y \<Longrightarrow> Math_round x \<le> Math_round y"
  by (simp add: Math_round_def floor_mono)

lemma Math_round_near: "\<bar>of_int (Math_round x) - x\<bar> \<le> 1 / 2"
  unfolding Math_round_def by linarith

lemma mapQualityToAvifCq_eq:
  "mapQualityToAvifCq q =
     min 63 (max 0 (Math_round (avifCq (min 100 (max 1 q)))))"
  unfolding mapQualityToAvifCq_def avifCq_def Let_def by (rule refl)

lemma avifCq_curve:
  "1 \<le> q \<Longrightarrow> q \<le> 100 \<Longrightarrow> avifCq q = avifBreakpointCurve (of_int q)"
  unfolding avifCq_def avifBreakpointCurve_def segment_def
  by (auto simp: field_simps)

lemma avifCq_antimono: "q \<le> q' \<Longrightarrow> avifCq q' \<le> avifCq q"
  unfolding avifCq_def by (auto simp: field_simps)

lemma avifCq_bounds: "1 \<le> q \<Longrightarrow> q \<le> 100 \<Longrightarrow> 10 \<le> avifCq q \<and> avifCq q \<le> 60"
  unfolding avifCq_def by (auto simp: field_simps)

text \<open>
  Claim C3. For every quality \<open>q\<close> from 1 to 100: a larger quality (up to 100) never gets a
  larger cq level; the result is the breakpoint curve through (100, 10), (75, 30),
  (50, 40), (25, 50), (1, 60) rounded to the nearest integer, so it is within 1/2 of the
  curve; and it lies in the native range 0..63. The last two conjuncts fix the curve and
  the function at the five breakpoints.
\<close>

theorem mapQualityToAvifCq_curve:
  assumes "1 \<le> q" and "q \<le> 100"
  shows "(\<forall>q'. q \<le> q' \<and> q' \<le> 100 \<longrightarrow> mapQualityToAvifCq q' \<le> mapQualityToAvifCq q)
       \<and> mapQualityToAvifCq q = Math_round (avifBreakpointCurve (of_int q))
       \<and> \<bar>of_int (mapQualityToAvifCq q) - avifBreakpointCurve (of_int q)\<bar> \<le> 1 / 2
       \<and> 0 \<le> mapQualityToAvifCq q \<and> mapQualityToAvifCq q \<le> 63
       \<and> map avifBreakpointCurve [100, 75, 50, 25, 1] = [10, 30, 40, 50, 60]
       \<and> map mapQualityToAvifCq [100, 75, 50, 25, 1] = [10, 30, 40, 50, 60]"
proof -
  have clampq: "min 100 (max 1 q) = q"
    using assms by simp
  have b: "10 \<le> avifCq q \<and> avifCq q \<le> 60"
    using assms by (rule avifCq_bounds)
  have "Math_round 10 \<le> Math_round (avifCq q)" "Math_round (avifCq q) \<le> Math_round 60"
    using b by (simp_all add: Math_round_mono)
  moreover have "Math_round 10 = 10" "Math_round 60 = 60"
    by (simp_all add: Math_round_def floor_eq_iff)
  ultimately have r: "10 \<le> Math_round (avifCq q)" "Math_round (avifCq q) \<le> 60"
    by simp_all
  have val: "mapQualityToAvifCq q = Math_round (avifCq q)"
    using r by (simp add: mapQualityToAvifCq_eq clampq)
  have mono: "mapQualityToAvifCq q' \<le> mapQualityToAvifCq q" if "q \<le> q'" "q' \<le> 100" for q'
  proof -
    have "min 100 (max 1 q') = q'"
      using that assms by simp
    moreover have "Math_round (avifCq q') \<le> Math_round (avifCq q)"
      using that by (simp add: Math_round_mono avifCq_antimono)
    ultimately show ?thesis
      unfolding mapQualityToAvifCq_eq clampq by simp
  qed
  have curve: "mapQualityToAvifCq q = Math_round (avifBreakpointCurve (of_int q))"
    using val avifCq_curve [OF assms] by simp
  have near: "\<bar>of_int (mapQualityToAvifCq q) - avifBreakpointCurve (of_int q)\<bar> \<le> 1 / 2"
    unfolding curve by (rule Math_round_near)
  have range: "0 \<le> mapQualityToAvifCq q \<and> mapQualityToAvifCq q \<le> 63"
    using r val by simp
  have bp1: "map avifBreakpointCurve [100, 75, 50, 25, 1] = [10, 30, 40, 50, 60]"
    by (simp add: avifBreakpointCurve_def segment_def)
  have bp2: "map mapQualityToAvifCq [100, 75, 50, 25, 1] = [10, 30, 40, 50, 60]"
    by (simp add: mapQualityToAvifCq_def Math_round_def floor_eq_iff)
  show ?thesis
    using mono curve near range bp1 bp2 by blast
qed

theorem mapQualityToAvifCq_curve_witness:
  "(1::int) \<le> 60 \<and> (60::int) \<le> 100
   \<and> mapQualityToAvifCq 80 \<le> mapQualityToAvifCq 60
   \<and> mapQualityToAvifCq 60 = Math_round (avifBreakpointCurve 60)
   \<and> 0 \<le> mapQualityToAvifCq 60 \<and> mapQualityToAvifCq 60 \<le> 63"
proof -
  have h1: "(1::int) \<le> 60" and h2: "(60::int) \<le> 100"
    by simp_all
  have h3: "(60::int) \<le> 80 \<and> (80::int) \<le> 100"
    by simp
  note curve = mapQualityToAvifCq_curve [OF h1 h2]
  have mono: "\<forall>q'. 60 \<le> q' \<and> q' \<le> 100 \<longrightarrow> mapQualityToAvifCq q' \<le> mapQualityToAvifCq 60"
    using curve by blast
  have rest: "mapQualityToAvifCq 60 = Math_round (avifBreakpointCurve 60)"
      "0 \<le> mapQualityToAvifCq 60" "mapQualityToAvifCq 60 \<le> 63"
    using curve by simp_all
  from mono h3 have "mapQualityToAvifCq 80 \<le> mapQualityToAvifCq 60"
    by blast
  with rest h1 h2 show ?thesis
    by simp
qed

text \<open>
  Claim C10. The function is defined on every integer and only looks at its argument
  through the clamp to 1..100: every quality below 1 gives the result of quality 1, which
  is cq 60, and every quality above 100 gives the result of quality 100, which is cq 10.
\<close>

theorem mapQualityToAvifCq_total_clamped:
  "mapQualityToAvifCq q = mapQualityToAvifCq (min 100 (max 1 q))
   \<and> (q < 1 \<longrightarrow> mapQualityToAvifCq q = mapQualityToAvifCq 1 \<and> mapQualityToAvifCq q = 60)
   \<and> (100 < q \<longrightarrow> mapQualityToAvifCq q = mapQualityToAvifCq 100 \<and> mapQualityToAvifCq q = 10)"
proof -
  have idem: "min 100 (max 1 (min 100 (max 1 q))) = min 100 (max (1::int) q)"
    by simp
  have a: "mapQualityToAvifCq q = mapQualityToAvifCq (min 100 (max 1 q))"
    unfolding mapQualityToAvifCq_eq idem by (rule refl)
  have one: "mapQualityToAvifCq 1 = 60" and hundred: "mapQualityToAvifCq 100 = 10"
    by (simp_all add: mapQualityToAvifCq_def Math_round_def floor_eq_iff)
  have lo: "mapQualityToAvifCq q = mapQualityToAvifCq 1" if "q < 1"
  proof -
    have "min 100 (max 1 q) = 1" using that by simp
    with a show ?thesis by simp
  qed
  have hi: "mapQualityToAvifCq q = mapQualityToAvifCq 100" if "100 < q"
  proof -
    have "min 100 (max 1 q) = 100" using that by simp
    with a show ?thesis by simp
  qed
  show ?thesis
    using a lo hi one hundred by simp
qed

theorem mapQualityToAvifCq_total_clamped_witness:
  "(-5::int) < 1 \<and> mapQualityToAvifCq (-5) = 60 \<and> (100::int) < 250 \<and> mapQualityToAvifCq 250 = 10"
  using mapQualityToAvifCq_total_clamped [of "-5"] mapQualityToAvifCq_total_clamped [of 250]
  by simp

section \<open>Properties of the catalog and of the encode options\<close>

lemma menu_ids:
  "map enc_id (getMenuOptions support) =
     [Avif, BrowserGif, BrowserJpeg, BrowserPng, Jxl, Mozjpeg, Oxipng, Qoi, Webp, Wp2, Original]"
  by (simp add: getMenuOptions_def Let_def)

text \<open>
  Claim C5. For every capability set the catalog has exactly one entry with id
  \<^verbatim>\<open>mozjpeg\<close>. Its encoder type is \<^verbatim>\<open>squoosh\<close> when the mozjpeg capability is usable and
  \<^verbatim>\<open>sharp\<close> otherwise, so never \<^verbatim>\<open>unsupported\<close>; its label is \<^verbatim>\<open>MozJPEG\<close> in the first case
  and \<^verbatim>\<open>JPEG fallback (not true MozJPEG)\<close> in the second, and \<^verbatim>\<open>isFallback\<close> says which;
  the mozjpeg entry of any capability set with the other mozjpeg flag has a different
  label.
\<close>

theorem mozjpeg_entry_never_unsupported:
  "\<exists>m. filter (\<lambda>opt. enc_id opt = Mozjpeg) (getMenuOptions support) = [m]
       \<and> encoderType m = (if mozjpeg support then Squoosh else Sharp)
       \<and> encoderType m \<noteq> Unsupported
       \<and> label m = (if mozjpeg support then ''MozJPEG''
                    else ''JPEG fallback (not true MozJPEG)'')
       \<and> isFallback m = Some (\<not> mozjpeg support)
       \<and> (\<forall>other m'. mozjpeg other \<noteq> mozjpeg support
              \<and> List.find (\<lambda>opt. enc_id opt = Mozjpeg) (getMenuOptions other) = Some m'
            \<longrightarrow> label m' \<noteq> label m)"
  by (cases "mozjpeg support") (auto simp: getMenuOptions_def Let_def)

theorem mozjpeg_entry_never_unsupported_witness:
  "filter (\<lambda>opt. enc_id opt = Mozjpeg)
     (getMenuOptions \<lparr>mozjpeg = False, webp = True, avif = True, oxipng = True,
                      jxl = True, wp2 = True\<rparr>)
   = [\<lparr> enc_id = Mozjpeg, label = ''JPEG fallback (not true MozJPEG)'', ext = ''jpg'',
        lossy = True, supportsQuality = True, encoderType = Sharp, squooshCodec = None,
        sharpFormat = Some SharpJpeg, isFallback = Some True \<rparr>]
   \<and> map_option label (List.find (\<lambda>opt. enc_id opt = Mozjpeg)
        (getMenuOptions \<lparr>mozjpeg = True, webp = True, avif = True, oxipng = True,
                         jxl = True, wp2 = True\<rparr>))
     = Some ''MozJPEG''"
  using mozjpeg_entry_never_unsupported
    [of "\<lparr>mozjpeg = False, webp = True, avif = True, oxipng = True, jxl = True, wp2 = True\<rparr>"]
  by (simp add: getMenuOptions_def Let_def)

text \<open>
  Claim C8 as stated fails: \<^verbatim>\<open>getSquooshEncodeOptions\<close> has no clamp on the direct scale.
  Quality 150 for \<^verbatim>\<open>webp\<close> is handed on as 150, outside 1..100.
\<close>

theorem direct_scale_quality_not_clamped:
  "getSquooshEncodeOptions Webp 150 = [(''quality'', 150)]
   \<and> \<not> (1 \<le> snd (hd (getSquooshEncodeOptions Webp 150))
        \<and> snd (hd (getSquooshEncodeOptions Webp 150)) \<le> 100)"
  by (simp add: getSquooshEncodeOptions_def)

text \<open>
  Claim C8, amended. For mozjpeg, webp, jxl and wp2 the options are exactly
  \<^verbatim>\<open>{ quality }\<close> with the quality unchanged; nothing is clamped, and the value handed on
  lies in 1..100 whenever the quality given does.
\<close>

theorem direct_scale_quality_identity:
  assumes "i \<in> {Mozjpeg, Webp, Jxl, Wp2}"
  shows "getSquooshEncodeOptions i q = [(''quality'', q)]
       \<and> (1 \<le> q \<and> q \<le> 100 \<longrightarrow>
            (\<forall>v. (''quality'', v) \<in> set (getSquooshEncodeOptions i q) \<longrightarrow> 1 \<le> v \<and> v \<le> 100))"
  using assms by (auto simp: getSquooshEncodeOptions_def)

theorem direct_scale_quality_identity_witness:
  "Jxl \<in> {Mozjpeg, Webp, Jxl, Wp2} \<and> getSquooshEncodeOptions Jxl 75 = [(''quality'', 75)]
   \<and> (1::int) \<le> 75 \<and> (75::int) \<le> 100"
  using direct_scale_quality_identity [of Jxl 75] by simp

section \<open>Properties of capability detection\<close>

lemma trySquooshEncode_iff:
  "trySquooshEncode e codec options \<longleftrightarrow>
     (\<exists>binary. poolEncode e codec options TINY_PNG = EncodedWith (Some binary) \<and> binary \<noteq> [])"
  unfolding trySquooshEncode_def
  by (cases "poolEncode e codec options TINY_PNG") (auto split: option.splits)

lemma detect_new_node: "nodeMajor e \<ge> 20 \<Longrightarrow> detectSquooshSupport e = Inr noSupport"
  by (simp add: detectSquooshSupport_def)

lemma detect_import_fails:
  "\<not> importSquoosh e \<Longrightarrow> detectSquooshSupport e = Inr noSupport"
  by (simp add: detectSquooshSupport_def)

lemma detect_ctor_throws:
  "nodeMajor e < 20 \<Longrightarrow> importSquoosh e \<Longrightarrow> newImagePool e 1 = Some err
     \<Longrightarrow> detectSquooshSupport e = Inl err"
  by (simp add: detectSquooshSupport_def)

lemma detect_probes:
  "nodeMajor e < 20 \<Longrightarrow> importSquoosh e \<Longrightarrow> newImagePool e 1 = None
     \<Longrightarrow> detectSquooshSupport e =
          Inr \<lparr> mozjpeg = trySquooshEncode e ''mozjpeg'' [(''quality'', 75)],
                webp = trySquooshEncode e ''webp'' [(''quality'', 75)],
                avif = trySquooshEncode e ''avif'' [(''cqLevel'', 30)],
                oxipng = trySquooshEncode e ''oxipng'' [(''level'', 2)],
                jxl = trySquooshEncode e ''jxl'' [(''quality'', 75)],
                wp2 = trySquooshEncode e ''wp2'' [(''quality'', 75)] \<rparr>"
  by (simp add: detectSquooshSupport_def)

text \<open>
  Claim C6 holds up to its last part. When \<^verbatim>\<open>detectSquooshSupport\<close> returns, a codec is
  usable exactly when its own encode of the test image gave a non-empty binary
  (\<open>detect_probes\<close>, \<open>trySquooshEncode_iff\<close>), and a failed import gives no support at all
  whatever the encodes would do (\<open>detect_import_fails\<close>). But an exception does escape:
  the import is guarded and the construction of the pool on line 87 is not, so when
  \<^verbatim>\<open>new ImagePoolCtor(1)\<close> throws, \<^verbatim>\<open>detectSquooshSupport\<close> rejects with that error instead
  of reporting every codec unusable. \<^verbatim>\<open>processImages\<close> guards the same constructor call.
\<close>

theorem detectSquooshSupport_ctor_escapes:
  "detectSquooshSupport envPoolCtorThrows = Inl (Error ''worker threads unavailable'')"
  by (simp add: detectSquooshSupport_def envPoolCtorThrows_def envNode16_def)

section \<open>Properties of the batch runner\<close>

lemma forEncoders_step:
  "\<exists>st' buf'. forEncoders e p pool fl (enc # rest) buf st
                 = forEncoders e p pool fl rest buf' st'
     \<and> attempted st' = attempted st @ [(fl, enc_id enc)]
     \<and> (\<forall>i. i \<noteq> enc_id enc \<longrightarrow> outputs st' i = outputs st i)"
proof -
  let ?ext = "if enc_id enc = Original then getOriginalExtension e fl else ext enc"
  let ?out = "buildOutputPath e \<lparr> inputRoot = inputRoot p, outputRoot = outputRoot p,
              isDirectory = isDirectory p, inputFile = fl, outputExt = ?ext \<rparr>"
  obtain seen r w' buf' where
    t: "tryEncode e pool enc fl ?out (getQualityForEncoder enc (quality p)) buf (now st)
          = ((seen, r, w'), buf')"
    by (metis prod.exhaust)
  show ?thesis
  proof (cases r)
    case (Inl err)
    with t show ?thesis
      by (intro exI [of _ "st\<lparr> failed := failed st @ [(fl, label enc @ '': '' @ message err)],
            attempted := attempted st @ [(fl, enc_id enc)], now := w' \<rparr>"] exI [of _ buf'])
        (simp add: Let_def)
  next
    case (Inr u)
    with t show ?thesis
      by (intro exI [of _ "st\<lparr> outputs := (outputs st)(enc_id enc := outputs st (enc_id enc) + 1),
            attempted := attempted st @ [(fl, enc_id enc)], now := w' \<rparr>"] exI [of _ buf'])
        (simp add: Let_def)
  qed
qed

lemma forEncoders_attempted:
  "attempted (forEncoders e p pool fl encs buf st)
     = attempted st @ map (\<lambda>enc. (fl, enc_id enc)) encs"
proof (induction encs arbitrary: buf st)
  case Nil
  show ?case by simp
next
  case (Cons enc rest)
  from forEncoders_step [of e p pool fl enc rest buf st]
  obtain st' buf' where
    s: "forEncoders e p pool fl (enc # rest) buf st = forEncoders e p pool fl rest buf' st'"
    and a: "attempted st' = attempted st @ [(fl, enc_id enc)]"
    by blast
  show ?case
    unfolding s Cons.IH a by simp
qed

lemma forEncoders_outputs:
  "i \<notin> enc_id ` set encs \<Longrightarrow> outputs (forEncoders e p pool fl encs buf st) i = outputs st i"
proof (induction encs arbitrary: buf st)
  case Nil
  show ?case by simp
next
  case (Cons enc rest)
  from forEncoders_step [of e p pool fl enc rest buf st]
  obtain st' buf' where
    s: "forEncoders e p pool fl (enc # rest) buf st = forEncoders e p pool fl rest buf' st'"
    and o: "\<forall>i. i \<noteq> enc_id enc \<longrightarrow> outputs st' i = outputs st i"
    by blast
  from Cons.prems have "i \<noteq> enc_id enc" and "i \<notin> enc_id ` set rest"
    by auto
  then show ?case
    unfolding s using Cons.IH [of buf' st'] o by simp
qed

lemma forFiles_attempted:
  "attempted (forFiles e p pool active fs st)
     = attempted st @ concat (map (\<lambda>f. map (\<lambda>enc. (f, enc_id enc)) active) fs)"
  by (induction fs arbitrary: st) (simp_all add: Let_def forEncoders_attempted)

lemma forFiles_outputs:
  "i \<notin> enc_id ` set active \<Longrightarrow> outputs (forFiles e p pool active fs st) i = outputs st i"
  by (induction fs arbitrary: st) (simp_all add: Let_def forEncoders_outputs)

lemma defaultConcurrency_range: "2 \<le> defaultConcurrency e \<and> defaultConcurrency e \<le> 8"
  by (simp add: defaultConcurrency_def Let_def)

lemma processImages_returns:
  assumes "1 \<le> chosenConcurrency e params"
  shows "processImages e params w =
    (case planEncoders e (chosenConcurrency e params) params of
       (pool, activeEncoders, unsupported') \<Rightarrow>
         (let st = forFiles e params pool activeEncoders (inputFiles params)
                     \<lparr> outputs = (\<lambda>_. 0), failed = [], completed = 0, attempted = [], now = w \<rparr>
          in Inr \<lparr> summary =
                     \<lparr> totalInputs = length (inputFiles params), outputsByEncoder = outputs st,
                       failures = failed st, unsupported = unsupported',
                       runtimeMs = elapsedMs e \<rparr>,
                   activeSet = activeEncoders, jobs = attempted st, endWorld = now st \<rparr>))"
  using assms by (simp add: processImages_def pLimit_def Let_def)

lemma selection_ids_distinct:
  "distinct (map enc_id (filter (\<lambda>opt. enc_id opt \<in> set selection) (getMenuOptions support)))"
proof -
  have "distinct (map enc_id (getMenuOptions support))"
    unfolding menu_ids by simp
  then show ?thesis
    by (rule distinct_map_filter)
qed




lemma planEncoders_sound:
  assumes "planEncoders e c params = (pool, active, unsup)"
  shows "set active \<subseteq> {enc \<in> set (encoders params). encoderType enc \<noteq> Unsupported}
       \<and> skippedEntry params ` {enc \<in> set (encoders params). encoderType enc = Unsupported}
           \<subseteq> set unsup"
  using assms unfolding planEncoders_def Let_def
  by (auto split: if_splits)



lemma unsupported_not_run:
  assumes ok: "1 \<le> chosenConcurrency e params"
    and ids: "distinct (map enc_id (encoders params))"
  shows "\<exists>r. processImages e params w = Inr r
       \<and> totalInputs (summary r) = length (inputFiles params)
       \<and> (\<forall>enc \<in> set (encoders params). encoderType enc = Unsupported \<longrightarrow>
            (enc_id enc, label enc, length (inputFiles params))
              \<in> set (unsupported (summary r))
            \<and> enc \<notin> set (activeSet r)
            \<and> (\<forall>f. (f, enc_id enc) \<notin> set (jobs r))
            \<and> outputsByEncoder (summary r) (enc_id enc) = 0)"
proof -
  let ?c = "chosenConcurrency e params"
  obtain pool active unsup where plan: "planEncoders e ?c params = (pool, active, unsup)"
    by (metis prod.exhaust)
  let ?st = "forFiles e params pool active (inputFiles params)
               \<lparr> outputs = (\<lambda>_. 0), failed = [], completed = 0, attempted = [], now = w \<rparr>"
  let ?r = "\<lparr> summary = \<lparr> totalInputs = length (inputFiles params),
                           outputsByEncoder = outputs ?st, failures = failed ?st,
                           unsupported = unsup, runtimeMs = elapsedMs e \<rparr>,
              activeSet = active, jobs = attempted ?st, endWorld = now ?st \<rparr>"
  have run: "processImages e params w = Inr ?r"
    unfolding processImages_returns [OF ok] plan by (simp add: Let_def)
  from planEncoders_sound [OF plan]
  have act: "set active \<subseteq> {enc \<in> set (encoders params). encoderType enc \<noteq> Unsupported}"
    and sk: "skippedEntry params ` {enc \<in> set (encoders params). encoderType enc = Unsupported}
               \<subseteq> set unsup"
    by blast+
  have each: "(enc_id enc, label enc, length (inputFiles params)) \<in> set unsup
      \<and> enc \<notin> set active
      \<and> (\<forall>f. (f, enc_id enc) \<notin> set (attempted ?st))
      \<and> outputs ?st (enc_id enc) = 0"
    if mem: "enc \<in> set (encoders params)" and un: "encoderType enc = Unsupported" for enc
  proof -
    have "skippedEntry params enc \<in> set unsup"
      using sk mem un by blast
    then have a: "(enc_id enc, label enc, length (inputFiles params)) \<in> set unsup"
      by (simp add: skippedEntry_def)
    have b: "enc \<notin> set active"
      using act un by blast
    have inj: "inj_on enc_id (set (encoders params))"
      using ids by (simp add: distinct_map)
    have c: "enc_id enc \<notin> enc_id ` set active"
    proof
      assume "enc_id enc \<in> enc_id ` set active"
      then obtain other where o: "other \<in> set active" "enc_id other = enc_id enc"
        by auto
      with act have "other \<in> set (encoders params)" "encoderType other \<noteq> Unsupported"
        by blast+
      with inj mem o(2) have "other = enc"
        by (auto dest: inj_onD)
      with un \<open>encoderType other \<noteq> Unsupported\<close> show False
        by simp
    qed
    have d: "(f, enc_id enc) \<notin> set (attempted ?st)" for f
      using c by (auto simp: forFiles_attempted)
    have "outputs ?st (enc_id enc) = 0"
      using c by (simp add: forFiles_outputs)
    with a b d show ?thesis
      by blast
  qed
  show ?thesis
    using run each by simp
qed

text \<open>
  Claim C7. For a batch of N input files over encoders selected from the menu, whenever
  the limit is accepted \<^verbatim>\<open>processImages\<close> returns a summary over N inputs in which every
  selected encoder of type \<^verbatim>\<open>unsupported\<close> has an entry in \<^verbatim>\<open>unsupported\<close> with skipped
  count N; the encoder is not active, no iteration of the encoder loop ran for it on any
  file, and its counter in \<^verbatim>\<open>outputsByEncoder\<close> is still 0.
\<close>

theorem unsupported_selection_fully_skipped:
  assumes "1 \<le> chosenConcurrency e params"
    and "encoders params =
           filter (\<lambda>opt. enc_id opt \<in> set selection) (getMenuOptions support)"
  shows "\<exists>r. processImages e params w = Inr r
       \<and> totalInputs (summary r) = length (inputFiles params)
       \<and> (\<forall>enc \<in> set (encoders params). encoderType enc = Unsupported \<longrightarrow>
            (enc_id enc, label enc, length (inputFiles params))
              \<in> set (unsupported (summary r))
            \<and> enc \<notin> set (activeSet r)
            \<and> (\<forall>f. (f, enc_id enc) \<notin> set (jobs r))
            \<and> outputsByEncoder (summary r) (enc_id enc) = 0)"
proof -
  have "distinct (map enc_id (encoders params))"
    unfolding assms(2) by (rule selection_ids_distinct)
  with assms(1) show ?thesis
    by (rule unsupported_not_run)
qed

theorem unsupported_selection_fully_skipped_witness:
  "1 \<le> chosenConcurrency envNode16 (batchOfThree noSupport [BrowserPng, Qoi])
   \<and> encoders (batchOfThree noSupport [BrowserPng, Qoi]) =
        filter (\<lambda>opt. enc_id opt \<in> set [BrowserPng, Qoi]) (getMenuOptions noSupport)
   \<and> (\<exists>r. processImages envNode16 (batchOfThree noSupport [BrowserPng, Qoi])
             worldOfThree = Inr r
          \<and> totalInputs (summary r) = 3
          \<and> (Qoi, ''QOI'', 3) \<in> set (unsupported (summary r))
          \<and> (''/in/a.png'', Qoi) \<notin> set (jobs r)
          \<and> outputsByEncoder (summary r) Qoi = 0)"
proof -
  let ?p = "batchOfThree noSupport [BrowserPng, Qoi]"
  have c: "chosenConcurrency envNode16 ?p = 3"
    by (simp add: chosenConcurrency_def batchOfThree_def defaultConcurrency_def
        envNode16_def)
  have h1: "1 \<le> chosenConcurrency envNode16 ?p"
    unfolding c by simp
  have h2: "encoders ?p =
        filter (\<lambda>opt. enc_id opt \<in> set [BrowserPng, Qoi]) (getMenuOptions noSupport)"
    by (simp add: batchOfThree_def)
  have len: "length (inputFiles ?p) = 3"
    by (simp add: batchOfThree_def)
  have encs: "map (\<lambda>enc. (enc_id enc, label enc, encoderType enc)) (encoders ?p)
                = [(BrowserPng, ''Browser PNG'', Sharp), (Qoi, ''QOI'', Unsupported)]"
    by (simp add: batchOfThree_def getMenuOptions_def noSupport_def Let_def)
  obtain e1 e2 where e12: "encoders ?p = [e1, e2]"
    and e2: "enc_id e2 = Qoi" "label e2 = ''QOI''" "encoderType e2 = Unsupported"
    using encs by (auto simp: map_eq_Cons_conv)
  from unsupported_selection_fully_skipped [OF h1 h2, of worldOfThree]
  obtain r where r: "processImages envNode16 ?p worldOfThree = Inr r"
    and tot: "totalInputs (summary r) = length (inputFiles ?p)"
    and sk: "\<forall>enc \<in> set (encoders ?p). encoderType enc = Unsupported \<longrightarrow>
            (enc_id enc, label enc, length (inputFiles ?p)) \<in> set (unsupported (summary r))
            \<and> enc \<notin> set (activeSet r)
            \<and> (\<forall>f. (f, enc_id enc) \<notin> set (jobs r))
            \<and> outputsByEncoder (summary r) (enc_id enc) = 0"
    by blast
  have "e2 \<in> set (encoders ?p)"
    unfolding e12 by simp
  with sk e2(3) have
    "(enc_id e2, label e2, length (inputFiles ?p)) \<in> set (unsupported (summary r))"
    "\<forall>f. (f, enc_id e2) \<notin> set (jobs r)"
    "outputsByEncoder (summary r) (enc_id e2) = 0"
    by blast+
  then have a: "(Qoi, ''QOI'', 3) \<in> set (unsupported (summary r))"
    and b: "(''/in/a.png'', Qoi) \<notin> set (jobs r)"
    and d: "outputsByEncoder (summary r) Qoi = 0"
    unfolding e2 len by blast+
  have tot': "totalInputs (summary r) = 3"
    unfolding tot len ..
  have "\<exists>r. processImages envNode16 ?p worldOfThree = Inr r
          \<and> totalInputs (summary r) = 3
          \<and> (Qoi, ''QOI'', 3) \<in> set (unsupported (summary r))
          \<and> (''/in/a.png'', Qoi) \<notin> set (jobs r)
          \<and> outputsByEncoder (summary r) Qoi = 0"
    by (rule exI [of _ r]) (intro conjI r tot' a b d)
  with h1 h2 show ?thesis
    by (intro conjI)
qed

section \<open>Properties of paths\<close>

lemma dropWhile_all: "\<forall>x \<in> set xs. P x \<Longrightarrow> dropWhile P (xs @ ys) = dropWhile P ys"
  by (induction xs) auto

lemma scan_without_separator:
  assumes "CHR ''/'' \<notin> set xs"
  shows "dropWhile (\<lambda>c. c \<noteq> CHR ''/'') (dropWhile (\<lambda>c. c = CHR ''/'') xs) = []"
proof -
  have "set (dropWhile (\<lambda>c. c = CHR ''/'') xs) \<subseteq> set xs"
    by (auto dest: set_dropWhileD)
  with assms have "\<forall>c \<in> set (dropWhile (\<lambda>c. c = CHR ''/'') xs). c \<noteq> CHR ''/''"
    by auto
  then show ?thesis
    unfolding dropWhile_eq_Nil_conv .
qed

lemma dirname_of_name:
  assumes "sfx \<noteq> []" "CHR ''/'' \<notin> set sfx"
  shows "path_dirname sfx = ''.''"
proof -
  obtain c cs where s: "sfx = c # cs"
    using assms(1) by (cases sfx) auto
  have "CHR ''/'' \<notin> set (rev cs)"
    using assms(2) unfolding s by simp
  then have sc: "dropWhile (\<lambda>c. c \<noteq> CHR ''/'') (dropWhile (\<lambda>c. c = CHR ''/'') (rev cs)) = []"
    by (rule scan_without_separator)
  have c: "c \<noteq> CHR ''/''"
    using assms(2) unfolding s by auto
  have sel: "tl (c # cs) = cs" "hd (c # cs) = c"
    by simp_all
  have ne: "c # cs \<noteq> []"
    by simp
  show ?thesis
    unfolding s path_dirname_def Let_def sel sc if_not_P [OF ne] if_not_P [OF c]
    by simp
qed

lemma skip_separators_none:
  assumes "xs = [] \<or> hd xs \<noteq> CHR ''/''"
  shows "dropWhile (\<lambda>c. c = CHR ''/'') xs = xs"
  using assms by (cases xs) auto

lemma dirname_extended:
  assumes sfx: "sfx \<noteq> []" "CHR ''/'' \<notin> set sfx"
    and target: "target = [] \<or> last target \<noteq> CHR ''/''"
  shows "path_dirname (target @ sfx) = path_dirname target"
proof (cases "target = []")
  case True
  have "path_dirname sfx = ''.''"
    using sfx by (rule dirname_of_name)
  moreover have "path_dirname [] = ''.''"
    by (simp add: path_dirname_def)
  ultimately show ?thesis
    unfolding True by simp
next
  case False
  with target have lastc: "last target \<noteq> CHR ''/''"
    by simp
  obtain c cs where t: "target = c # cs"
    using False by (cases target) auto
  have nonsep: "\<forall>x \<in> set (rev sfx). x \<noteq> CHR ''/''"
    using sfx by auto
  have "last sfx \<in> set sfx"
    using sfx(1) by (rule last_in_set)
  with sfx(2) have "last sfx \<noteq> CHR ''/''"
    by auto
  then have "hd (rev sfx) \<noteq> CHR ''/''"
    by (simp add: hd_rev)
  moreover have "rev sfx \<noteq> []"
    using sfx by simp
  ultimately have "hd (rev sfx @ rev cs) \<noteq> CHR ''/''"
    by simp
  then have "rev sfx @ rev cs = [] \<or> hd (rev sfx @ rev cs) \<noteq> CHR ''/''"
    by (rule disjI2)
  then have skip1: "dropWhile (\<lambda>x. x = CHR ''/'') (rev sfx @ rev cs) = rev sfx @ rev cs"
    by (rule skip_separators_none)
  have skip2: "dropWhile (\<lambda>x. x \<noteq> CHR ''/'') (rev sfx @ rev cs)
                 = dropWhile (\<lambda>x. x \<noteq> CHR ''/'') (rev cs)"
    using nonsep by (rule dropWhile_all)
  have "rev cs = [] \<or> hd (rev cs) \<noteq> CHR ''/''"
  proof (cases "cs = []")
    case True
    then show ?thesis by simp
  next
    case nonempty: False
    with lastc t have "last cs \<noteq> CHR ''/''"
      by simp
    then show ?thesis
      by (simp add: hd_rev)
  qed
  then have skip3: "dropWhile (\<lambda>x. x = CHR ''/'') (rev cs) = rev cs"
    by (rule skip_separators_none)
  have a: "rev (tl ((c # cs) @ sfx)) = rev sfx @ rev cs"
    by simp
  have b: "rev (tl (c # cs)) = rev cs"
    by simp
  have h: "hd ((c # cs) @ sfx) = hd (c # cs)"
    by simp
  have ne: "(c # cs) @ sfx \<noteq> []" "c # cs \<noteq> []"
    by simp_all
  show ?thesis
    unfolding t path_dirname_def a b h skip1 skip2 skip3 if_not_P [OF ne(1)] if_not_P [OF ne(2)]
    by (rule refl)
qed

lemma splitSlash_nonempty: "splitSlash p \<noteq> []"
  by (induction p) auto

lemma splitSlash_of_name: "CHR ''/'' \<notin> set s \<Longrightarrow> splitSlash s = [s]"
  by (induction s) auto

lemma splitSlash_append: "splitSlash (x @ CHR ''/'' # y) = splitSlash x @ splitSlash y"
proof (induction x)
  case Nil
  show ?case by simp
next
  case (Cons c x)
  have "hd (splitSlash x @ splitSlash y) = hd (splitSlash x)" "tl (splitSlash x @ splitSlash y) = tl (splitSlash x) @ splitSlash y"
    using splitSlash_nonempty [of x] by simp_all
  with Cons show ?case
    by simp
qed

lemma splitSlash_slash_free: "\<forall>s \<in> set (splitSlash p). CHR ''/'' \<notin> set s"
proof (induction p)
  case Nil
  show ?case by simp
next
  case (Cons c p)
  have "hd (splitSlash p) \<in> set (splitSlash p)"
    using splitSlash_nonempty by (rule hd_in_set)
  moreover have "set (tl (splitSlash p)) \<subseteq> set (splitSlash p)"
    using splitSlash_nonempty [of p] by (cases "splitSlash p") auto
  ultimately show ?case
    using Cons by auto
qed

lemma joinSlash_append:
  "xs \<noteq> [] \<Longrightarrow> ys \<noteq> [] \<Longrightarrow> joinSlash (xs @ ys) = joinSlash xs @ CHR ''/'' # joinSlash ys"
proof (induction xs rule: joinSlash.induct)
  case 1
  then show ?case by simp
next
  case (2 s)
  then show ?case by (cases ys) simp_all
next
  case (3 s t ss)
  then show ?case by simp
qed

lemma splitSlash_joinSlash:
  assumes "segs \<noteq> []" "\<forall>s \<in> set segs. CHR ''/'' \<notin> set s"
  shows "splitSlash (joinSlash segs) = segs"
  using assms
proof (induction segs rule: joinSlash.induct)
  case 1
  then show ?case by simp
next
  case (2 s)
  then show ?case by (simp add: splitSlash_of_name)
next
  case (3 s t ss)
  then have "splitSlash (joinSlash (t # ss)) = t # ss"
    by simp
  moreover have "splitSlash s = [s]"
    using 3(3) by (simp add: splitSlash_of_name)
  ultimately show ?case
    by (simp add: splitSlash_append)
qed

lemma joinSlash_inject:
  assumes "xs \<noteq> []" "ys \<noteq> []"
    and "\<forall>s \<in> set xs. CHR ''/'' \<notin> set s" "\<forall>s \<in> set ys. CHR ''/'' \<notin> set s"
    and "joinSlash xs = joinSlash ys"
  shows "xs = ys"
proof -
  have "xs = splitSlash (joinSlash xs)"
    using assms(1,3) by (rule splitSlash_joinSlash [symmetric])
  also have "\<dots> = splitSlash (joinSlash ys)"
    by (simp only: assms(5))
  also have "\<dots> = ys"
    using assms(2,4) by (rule splitSlash_joinSlash)
  finally show ?thesis .
qed

lemma normStep_name: "isName s \<Longrightarrow> normStep b acc s = acc @ [s]"
  by (simp add: normStep_def isName_def)

lemma normStep_skip: "normStep b acc [] = acc" "normStep b acc ''.'' = acc"
  by (simp_all add: normStep_def)

lemma foldl_normStep_names:
  "\<forall>s \<in> set segs. isName s \<Longrightarrow> foldl (normStep b) acc segs = acc @ segs"
  by (induction segs arbitrary: acc) (simp_all add: normStep_name)

lemma normStep_segments:
  assumes "\<forall>s \<in> set acc. s \<noteq> [] \<and> CHR ''/'' \<notin> set s" and "CHR ''/'' \<notin> set seg"
  shows "\<forall>s \<in> set (normStep b acc seg). s \<noteq> [] \<and> CHR ''/'' \<notin> set s"
proof -
  have "\<forall>s \<in> set (butlast acc). s \<noteq> [] \<and> CHR ''/'' \<notin> set s"
    using assms(1) by (auto dest: in_set_butlastD)
  with assms show ?thesis
    unfolding normStep_def by auto
qed

lemma foldl_normStep_segments:
  assumes "\<forall>s \<in> set acc. s \<noteq> [] \<and> CHR ''/'' \<notin> set s"
    and "\<forall>s \<in> set segs. CHR ''/'' \<notin> set s"
  shows "\<forall>s \<in> set (foldl (normStep b) acc segs). s \<noteq> [] \<and> CHR ''/'' \<notin> set s"
  using assms
proof (induction segs arbitrary: acc)
  case Nil
  then show ?case by simp
next
  case (Cons seg segs)
  have "\<forall>s \<in> set (normStep b acc seg). s \<noteq> [] \<and> CHR ''/'' \<notin> set s"
    using Cons.prems by (intro normStep_segments) simp_all
  moreover have "\<forall>s \<in> set segs. CHR ''/'' \<notin> set s"
    using Cons.prems(2) by simp
  ultimately show ?case
    using Cons.IH [of "normStep b acc seg"] by simp
qed

lemma normalizeSegments_segments:
  "\<forall>s \<in> set (normalizeSegments b p). s \<noteq> [] \<and> CHR ''/'' \<notin> set s"
  unfolding normalizeSegments_def
  by (rule foldl_normStep_segments) (simp_all add: splitSlash_slash_free)

lemma normalizeSegments_append:
  "normalizeSegments b (x @ CHR ''/'' # y)
     = foldl (normStep b) (normalizeSegments b x) (splitSlash y)"
  by (simp add: normalizeSegments_def splitSlash_append)

lemma normalizeSegments_empty: "normalizeSegments b [] = []"
  by (simp add: normalizeSegments_def normStep_skip)

lemma isName_slash_free: "isName s \<Longrightarrow> CHR ''/'' \<notin> set s"
  by (simp add: isName_def)

lemma splitSlash_names:
  assumes "\<forall>s \<in> set segs. isName s"
  shows "splitSlash (joinSlash segs) = (if segs = [] then [[]] else segs)"
proof (cases "segs = []")
  case True
  then show ?thesis by simp
next
  case False
  moreover have "\<forall>s \<in> set segs. CHR ''/'' \<notin> set s"
    using assms by (simp add: isName_slash_free)
  ultimately show ?thesis
    by (simp add: splitSlash_joinSlash)
qed

lemma normalize_names:
  assumes "\<forall>s \<in> set segs. isName s"
  shows "foldl (normStep b) acc (splitSlash (joinSlash segs)) = acc @ segs"
proof (cases "segs = []")
  case True
  then show ?thesis by (simp add: normStep_skip)
next
  case False
  then show ?thesis
    using assms by (simp add: splitSlash_names foldl_normStep_names)
qed

lemma resolve_absolute:
  assumes "\<forall>s \<in> set segs. isName s"
  shows "path_resolve cw (absolute segs) = absolute segs"
proof -
  have "normalizeSegments False (absolute segs @ ''/'')
          = foldl (normStep False) (normalizeSegments False (absolute segs)) (splitSlash [])"
    by (simp add: normalizeSegments_append)
  also have "\<dots> = normalizeSegments False (absolute segs)"
    by (simp add: normStep_skip)
  also have "\<dots> = foldl (normStep False) (normalizeSegments False []) (splitSlash (joinSlash segs))"
    unfolding absolute_def using normalizeSegments_append [of False "[]" "joinSlash segs"] by simp
  also have "\<dots> = segs"
    using assms by (simp add: normalize_names normalizeSegments_empty)
  finally have n: "normalizeString (absolute segs @ ''/'') False = joinSlash segs"
    by (simp add: normalizeString_def)
  have a: "absolute segs \<noteq> []" "hd (absolute segs) = CHR ''/''"
    by (simp_all add: absolute_def)
  have h: "hd (absolute segs @ ''/'') = CHR ''/''"
    using a by simp
  show ?thesis
    unfolding path_resolve_def Let_def using a h n by (simp add: absolute_def)
qed

lemma components_absolute:
  assumes "\<forall>s \<in> set segs. isName s"
  shows "components (absolute segs) = segs"
proof -
  have "\<forall>s \<in> set segs. s \<noteq> []"
    using assms by (simp add: isName_def)
  then have "filter (\<lambda>seg. seg \<noteq> []) segs = segs"
    by (simp add: filter_id_conv)
  then show ?thesis
    using assms by (simp add: components_def absolute_def splitSlash_names)
qed

lemma dropCommon_prefix: "dropCommon rs (rs @ ys) = ([], ys)"
  by (induction rs) simp_all

lemma relative_under_root:
  assumes r: "\<forall>s \<in> set rs. isName s" and d: "\<forall>s \<in> set ys. isName s" and ne: "ys \<noteq> []"
  shows "path_relative cw (absolute rs) (absolute (rs @ ys)) = joinSlash ys"
proof -
  have all: "\<forall>s \<in> set (rs @ ys). isName s"
    using r d by auto
  have c1: "components (absolute rs) = rs"
    using r by (rule components_absolute)
  have c2: "components (absolute (rs @ ys)) = rs @ ys"
    using all by (rule components_absolute)
  have diff: "absolute rs \<noteq> absolute (rs @ ys)"
  proof
    assume "absolute rs = absolute (rs @ ys)"
    then have "components (absolute rs) = components (absolute (rs @ ys))"
      by simp
    then show False
      unfolding c1 c2 using ne by simp
  qed
  show ?thesis
    unfolding path_relative_def Let_def resolve_absolute [OF r] resolve_absolute [OF all] c1 c2
      dropCommon_prefix
    using diff by simp
qed

lemma name_ends:
  assumes "isName b"
  shows "b \<noteq> [] \<and> hd b \<noteq> CHR ''/'' \<and> last b \<noteq> CHR ''/''"
proof -
  from assms have ne: "b \<noteq> []" and sf: "CHR ''/'' \<notin> set b"
    by (simp_all add: isName_def)
  have "hd b \<noteq> CHR ''/''"
    using hd_in_set [OF ne] sf by metis
  moreover have "last b \<noteq> CHR ''/''"
    using last_in_set [OF ne] sf by metis
  ultimately show ?thesis
    using ne by simp
qed

lemma joinSlash_names_start:
  assumes "ds \<noteq> []" "\<forall>s \<in> set ds. isName s"
  shows "joinSlash ds \<noteq> [] \<and> hd (joinSlash ds) \<noteq> CHR ''/''"
proof -
  obtain d rest where ds: "ds = d # rest"
    using assms(1) by (cases ds) auto
  have d: "d \<noteq> []" "hd d \<noteq> CHR ''/''"
    using assms(2) name_ends [of d] unfolding ds by simp_all
  show ?thesis
    unfolding ds using d by (cases rest) simp_all
qed

lemma takeWhile_all: "\<forall>x \<in> set xs. P x \<Longrightarrow> takeWhile P (xs @ ys) = xs @ takeWhile P ys"
  by (induction xs) auto

lemma dirname_cut:
  assumes x: "x \<noteq> []" "hd x \<noteq> CHR ''/''" and b: "isName b"
  shows "path_dirname (x @ CHR ''/'' # b) = x"
proof -
  obtain c cs where xc: "x = c # cs"
    using x(1) by (cases x) auto
  have c: "c \<noteq> CHR ''/''"
    using x(2) xc by simp
  have bne: "rev b \<noteq> []" and bhd: "hd (rev b) \<noteq> CHR ''/''"
    using name_ends [OF b] by (simp_all add: hd_rev)
  have nonsep: "\<forall>y \<in> set (rev b). y \<noteq> CHR ''/''"
    using b by (auto simp: isName_def)
  have a: "rev (tl ((c # cs) @ CHR ''/'' # b)) = rev b @ CHR ''/'' # rev cs"
    by simp
  have "rev b @ CHR ''/'' # rev cs = [] \<or> hd (rev b @ CHR ''/'' # rev cs) \<noteq> CHR ''/''"
    using bne bhd by simp
  then have skip1: "dropWhile (\<lambda>y. y = CHR ''/'') (rev b @ CHR ''/'' # rev cs)
                      = rev b @ CHR ''/'' # rev cs"
    by (rule skip_separators_none)
  have skip2: "dropWhile (\<lambda>y. y \<noteq> CHR ''/'') (rev b @ CHR ''/'' # rev cs)
                 = CHR ''/'' # rev cs"
    using dropWhile_all [of "rev b" "\<lambda>y. y \<noteq> CHR ''/''" "CHR ''/'' # rev cs"] nonsep by simp
  have ne: "(c # cs) @ CHR ''/'' # b \<noteq> []"
    by simp
  have h: "hd ((c # cs) @ CHR ''/'' # b) = c"
    by simp
  show ?thesis
    unfolding xc path_dirname_def Let_def a h skip1 skip2 if_not_P [OF ne]
    using c by simp
qed

lemma dirname_relative:
  assumes "\<forall>s \<in> set ds. isName s" "isName b"
  shows "path_dirname (joinSlash (ds @ [b])) = (if ds = [] then ''.'' else joinSlash ds)"
proof (cases "ds = []")
  case True
  have "path_dirname b = ''.''"
    using assms(2) by (intro dirname_of_name) (simp_all add: isName_def)
  with True show ?thesis
    by simp
next
  case False
  have j: "joinSlash (ds @ [b]) = joinSlash ds @ CHR ''/'' # b"
    using False by (simp add: joinSlash_append)
  have "path_dirname (joinSlash ds @ CHR ''/'' # b) = joinSlash ds"
    using joinSlash_names_start [OF False assms(1)] assms(2) by (intro dirname_cut) simp_all
  with False j show ?thesis
    by simp
qed

lemma basename_last:
  assumes "isName b"
  shows "path_basename (pre @ CHR ''/'' # b) = b" and "path_basename b = b"
proof -
  have bne: "rev b \<noteq> []" and bhd: "hd (rev b) \<noteq> CHR ''/''"
    using name_ends [OF assms] by (simp_all add: hd_rev)
  have nonsep: "\<forall>y \<in> set (rev b). y \<noteq> CHR ''/''"
    using assms by (auto simp: isName_def)
  have "rev b @ CHR ''/'' # rev pre = [] \<or> hd (rev b @ CHR ''/'' # rev pre) \<noteq> CHR ''/''"
    using bne bhd by simp
  then have skip1: "dropWhile (\<lambda>y. y = CHR ''/'') (rev b @ CHR ''/'' # rev pre)
                      = rev b @ CHR ''/'' # rev pre"
    by (rule skip_separators_none)
  have take1: "takeWhile (\<lambda>y. y \<noteq> CHR ''/'') (rev b @ CHR ''/'' # rev pre) = rev b"
    using takeWhile_all [of "rev b" "\<lambda>y. y \<noteq> CHR ''/''" "CHR ''/'' # rev pre"] nonsep by simp
  have r: "rev (pre @ CHR ''/'' # b) = rev b @ CHR ''/'' # rev pre"
    by simp
  show "path_basename (pre @ CHR ''/'' # b) = b"
    unfolding path_basename_def r skip1 take1 by simp
  have "rev b = [] \<or> hd (rev b) \<noteq> CHR ''/''"
    using bhd by simp
  then have skip2: "dropWhile (\<lambda>y. y = CHR ''/'') (rev b) = rev b"
    by (rule skip_separators_none)
  have take2: "takeWhile (\<lambda>y. y \<noteq> CHR ''/'') (rev b) = rev b"
    using nonsep by (simp add: takeWhile_eq_all_conv)
  show "path_basename b = b"
    unfolding path_basename_def skip2 take2 by simp
qed

lemma parse_quirk_basename:
  assumes "take 3 p = ''/..''" "drop 3 p = replicate n (CHR ''/'')"
  shows "path_basename p = ''..''"
proof -
  have "p = take 3 p @ drop 3 p"
    by simp
  then have p: "p = ''/..'' @ replicate n (CHR ''/'')"
    unfolding assms .
  have "rev p = replicate n (CHR ''/'') @ ''../''"
    unfolding p by simp
  moreover have "dropWhile (\<lambda>c. c = CHR ''/'') (replicate n (CHR ''/'') @ ''../'') = ''../''"
    using dropWhile_all [of "replicate n (CHR ''/'')" "\<lambda>c. c = CHR ''/''" "''../''"] by simp
  ultimately show ?thesis
    unfolding path_basename_def by simp
qed

lemma parse_name_of_file:
  assumes "isName b"
  shows "path_parse_name (absolute (xs @ [b])) = path_parse_name b"
proof -
  have "absolute (xs @ [b]) = (if xs = [] then [] else CHR ''/'' # joinSlash xs) @ CHR ''/'' # b"
    by (simp add: absolute_def joinSlash_append)
  then have base: "path_basename (absolute (xs @ [b])) = b"
    using basename_last(1) [OF assms] by simp
  have other: "b \<noteq> ''..''"
    using assms by (simp add: isName_def)
  have q1: "\<not> (take 3 (absolute (xs @ [b])) = ''/..''
              \<and> drop 3 (absolute (xs @ [b]))
                   = replicate (length (absolute (xs @ [b])) - 3) (CHR ''/''))"
    using parse_quirk_basename [of "absolute (xs @ [b])"] base other by metis
  have q2: "\<not> (take 3 b = ''/..'' \<and> drop 3 b = replicate (length b - 3) (CHR ''/''))"
    using parse_quirk_basename [of b] basename_last(2) [OF assms] other by metis
  show ?thesis
    unfolding path_parse_name_def if_not_P [OF q1] if_not_P [OF q2] base
      basename_last(2) [OF assms] by (rule refl)
qed

lemma parse_name_plain:
  assumes "isName b"
  shows "path_parse_name b = fst (splitExt b)"
proof -
  have other: "b \<noteq> ''..''"
    using assms by (simp add: isName_def)
  have q: "\<not> (take 3 b = ''/..'' \<and> drop 3 b = replicate (length b - 3) (CHR ''/''))"
    using parse_quirk_basename [of b] basename_last(2) [OF assms] other by metis
  show ?thesis
    unfolding path_parse_name_def if_not_P [OF q] basename_last(2) [OF assms] by (rule refl)
qed

section \<open>Properties of the file system\<close>

lemma splitSlash_extend:
  assumes "CHR ''/'' \<notin> set sfx"
  shows "splitSlash (x @ sfx) = butlast (splitSlash x) @ [last (splitSlash x) @ sfx]"
proof (induction x)
  case Nil
  show ?case
    using assms by (simp add: splitSlash_of_name)
next
  case (Cons c x)
  obtain s rest where S: "splitSlash x = s # rest"
    using splitSlash_nonempty [of x] by (cases "splitSlash x") auto
  show ?case
  proof (cases rest)
    case Nil
    with Cons S show ?thesis by simp
  next
    case (Cons r rs)
    with Cons.IH S show ?thesis by simp
  qed
qed

lemma ancestors_extend:
  assumes "CHR ''/'' \<notin> set sfx"
  shows "ancestors (x @ sfx) = ancestors x"
proof -
  let ?S = "splitSlash x"
  have len: "length (splitSlash (x @ sfx)) = length ?S"
    unfolding splitSlash_extend [OF assms] using splitSlash_nonempty [of x] by simp
  have "take k (splitSlash (x @ sfx)) = take k ?S" if "k < length ?S" for k
    unfolding splitSlash_extend [OF assms] using that by (simp add: take_butlast)
  then have eq: "map (\<lambda>k. joinSlash (take k (splitSlash (x @ sfx)))) [1 ..< length ?S]
               = map (\<lambda>k. joinSlash (take k ?S)) [1 ..< length ?S]"
    by (intro map_cong) simp_all
  show ?thesis
    unfolding ancestors_def len eq by (rule refl)
qed

lemma namesDirectory_extend:
  assumes "CHR ''/'' \<notin> set sfx" "2 < length sfx"
  shows "\<not> namesDirectory (x @ sfx)"
proof -
  have "2 < length (last (splitSlash x) @ sfx)"
    using assms(2) by simp
  then have "last (splitSlash x) @ sfx \<notin> {[], ''.'', ''..''}"
    by (auto dest: arg_cong [where f = length])
  then show ?thesis
    unfolding namesDirectory_def splitSlash_extend [OF assms(1)] by simp
qed

lemma normalizeSegments_trailing: "normalizeSegments b (x @ ''/'') = normalizeSegments b x"
  using normalizeSegments_append [of b x "[]"] by (simp add: normStep_skip)

lemma normalizeSegments_extend:
  assumes "CHR ''/'' \<notin> set sfx" "2 < length sfx"
  shows "normalizeSegments b (x @ sfx) \<noteq> normalizeSegments b x
         \<and> normalizeSegments b (x @ sfx) \<noteq> []
         \<and> last (normalizeSegments b (x @ sfx)) = last (splitSlash x) @ sfx"
proof -
  let ?S = "splitSlash x"
  define A where "A = foldl (normStep b) [] (butlast ?S)"
  define c where "c = last ?S"
  have long: "2 < length (c @ sfx)"
    using assms(2) by simp
  then have name: "c @ sfx \<noteq> []" "c @ sfx \<noteq> ''.''" "c @ sfx \<noteq> ''..''"
    by (auto dest: arg_cong [where f = length])
  have "?S = butlast ?S @ [c]"
    unfolding c_def using splitSlash_nonempty [of x] by simp
  then have "normalizeSegments b x = foldl (normStep b) [] (butlast ?S @ [c])"
    unfolding normalizeSegments_def by simp
  then have old: "normalizeSegments b x = normStep b A c"
    unfolding A_def by simp
  have "normalizeSegments b (x @ sfx) = normStep b A (c @ sfx)"
    unfolding normalizeSegments_def splitSlash_extend [OF assms(1)] A_def c_def by simp
  then have new: "normalizeSegments b (x @ sfx) = A @ [c @ sfx]"
    using name by (simp add: normStep_def)
  have "normStep b A c \<noteq> A @ [c @ sfx]"
  proof
    assume eq: "normStep b A c = A @ [c @ sfx]"
    have "normStep b A c = A \<or> normStep b A c = butlast A
            \<or> normStep b A c = A @ [''..''] \<or> normStep b A c = A @ [c]"
      unfolding normStep_def by simp
    then consider "normStep b A c = A" | "normStep b A c = butlast A"
      | "normStep b A c = A @ [''..'']" | "normStep b A c = A @ [c]"
      by blast
    then show False
    proof cases
      case 1
      with eq show False by simp
    next
      case 2
      with eq have "length (butlast A) = length (A @ [c @ sfx])" by simp
      then show False by simp
    next
      case 3
      with eq name show False by simp
    next
      case 4
      with eq assms(2) show False by simp
    qed
  qed
  with old new show ?thesis
    unfolding c_def by simp
qed

lemma joinSlash_empty:
  assumes "\<forall>s \<in> set xs. s \<noteq> []" "joinSlash xs = []"
  shows "xs = []"
proof (cases xs)
  case Nil
  then show ?thesis .
next
  case (Cons s rest)
  with assms show ?thesis
    by (cases rest) simp_all
qed

lemma joinSlash_inject_segments:
  assumes "\<forall>s \<in> set xs. s \<noteq> [] \<and> CHR ''/'' \<notin> set s"
    and "\<forall>s \<in> set ys. s \<noteq> [] \<and> CHR ''/'' \<notin> set s"
    and "joinSlash xs = joinSlash ys"
  shows "xs = ys"
proof (cases "xs = [] \<or> ys = []")
  case True
  then show ?thesis
    using assms joinSlash_empty [of xs] joinSlash_empty [of ys] by auto
next
  case False
  then show ?thesis
    using assms by (intro joinSlash_inject) simp_all
qed

lemma realpath_extend:
  assumes sfx: "CHR ''/'' \<notin> set sfx" "2 < length sfx"
  shows "realpath e (t @ sfx) \<noteq> realpath e t"
proof -
  define cw where "cw = cwd e"
  define R where "R p = (if p \<noteq> [] \<and> hd p = CHR ''/'' then p @ ''/''
             else if p = [] then (if cw = [] then [] else cw @ ''/'')
             else if cw = [] then p @ ''/''
             else cw @ ''/'' @ p @ ''/'')" for p :: string
  have res: "realpath e p =
      (if R p \<noteq> [] \<and> hd (R p) = CHR ''/''
       then CHR ''/'' # joinSlash (normalizeSegments False (R p))
       else if joinSlash (normalizeSegments True (R p)) \<noteq> []
         then joinSlash (normalizeSegments True (R p)) else ''.'')" for p
    unfolding realpath_def path_resolve_def Let_def R_def cw_def normalizeString_def
    by simp
  have sne: "sfx \<noteq> []"
    using sfx(2) by auto
  then have "hd sfx \<in> set sfx"
    by (rule hd_in_set)
  with sfx(1) have shd: "hd sfx \<noteq> CHR ''/''"
    by metis
  have "\<exists>X. (\<forall>b. normalizeSegments b (R t) = normalizeSegments b X)
           \<and> R (t @ sfx) = X @ sfx @ ''/''
           \<and> (R (t @ sfx) \<noteq> [] \<and> hd (R (t @ sfx)) = CHR ''/'' \<longleftrightarrow> R t \<noteq> [] \<and> hd (R t) = CHR ''/'')"
  proof (cases "t = []")
    case True
    show ?thesis
    proof (cases "cw = []")
      case True
      with \<open>t = []\<close> sne shd show ?thesis
        unfolding R_def by (intro exI [of _ "[]"]) simp
    next
      case False
      with \<open>t = []\<close> sne shd show ?thesis
        unfolding R_def by (intro exI [of _ "cw @ ''/''"]) simp
    qed
  next
    case False
    show ?thesis
    proof (cases "hd t = CHR ''/'' \<or> cw = []")
      case True
      with False show ?thesis
        unfolding R_def using normalizeSegments_trailing [of _ t]
        by (intro exI [of _ t]) auto
    next
      case rel: False
      with False show ?thesis
        unfolding R_def using normalizeSegments_trailing [of _ "cw @ ''/'' @ t"]
        by (intro exI [of _ "cw @ ''/'' @ t"]) auto
    qed
  qed
  then obtain X where X: "\<And>b. normalizeSegments b (R t) = normalizeSegments b X"
    "R (t @ sfx) = X @ sfx @ ''/''"
    "R (t @ sfx) \<noteq> [] \<and> hd (R (t @ sfx)) = CHR ''/'' \<longleftrightarrow> R t \<noteq> [] \<and> hd (R t) = CHR ''/''"
    by blast
  have new: "normalizeSegments b (R (t @ sfx)) = normalizeSegments b (X @ sfx)" for b
    unfolding X(2) using normalizeSegments_trailing [of b "X @ sfx"] by simp
  note ext = normalizeSegments_extend [OF sfx, of _ X, folded new X(1)]
  have segs: "\<forall>s \<in> set (normalizeSegments b p). s \<noteq> [] \<and> CHR ''/'' \<notin> set s" for b p
    by (rule normalizeSegments_segments)
  have differ: "joinSlash (normalizeSegments b (R (t @ sfx))) \<noteq> joinSlash (normalizeSegments b (R t))"
    for b
    using joinSlash_inject_segments [OF segs segs] ext by blast
  have nonempty: "joinSlash (normalizeSegments b (R (t @ sfx))) \<noteq> []" for b
    using joinSlash_empty [of "normalizeSegments b (R (t @ sfx))"] segs ext by blast
  have nodot: "joinSlash (normalizeSegments b (R (t @ sfx))) \<noteq> ''.''" for b
  proof
    assume "joinSlash (normalizeSegments b (R (t @ sfx))) = ''.''"
    then have "joinSlash (normalizeSegments b (R (t @ sfx))) = joinSlash [''.'']"
      by simp
    then have "normalizeSegments b (R (t @ sfx)) = [''.'']"
      using segs by (intro joinSlash_inject_segments) simp_all
    with ext [of b] have "last (splitSlash X) @ sfx = ''.''"
      by simp
    then have "length (last (splitSlash X) @ sfx) = 1"
      by simp
    with sfx(2) show False
      by simp
  qed
  show ?thesis
    unfolding res [of t] res [of "t @ sfx"] using X(3) differ nonempty nodot by auto
qed

lemma makeDirs_keeps:
  "makeDirs e as w = (r, w') \<Longrightarrow> files w' = files w \<and> draws w' = draws w \<and> dirs w \<subseteq> dirs w'"
proof (induction as arbitrary: w)
  case Nil
  then show ?case by simp
next
  case (Cons a as)
  show ?case
  proof (cases "files w (realpath e a) \<noteq> None")
    case True
    with Cons.prems show ?thesis by simp
  next
    case False
    with Cons.prems
    have "makeDirs e as (w\<lparr>dirs := insert (realpath e a) (dirs w)\<rparr>) = (r, w')"
      by simp
    from Cons.IH [OF this] show ?thesis
      by auto
  qed
qed

lemma makeDirs_done:
  "makeDirs e as w = (None, w') \<Longrightarrow> dirs w' = dirs w \<union> realpath e ` set as"
proof (induction as arbitrary: w)
  case Nil
  then show ?case by simp
next
  case (Cons a as)
  show ?case
  proof (cases "files w (realpath e a) \<noteq> None")
    case True
    with Cons.prems show ?thesis by simp
  next
    case False
    with Cons.prems
    have "makeDirs e as (w\<lparr>dirs := insert (realpath e a) (dirs w)\<rparr>) = (None, w')"
      by simp
    from Cons.IH [OF this] show ?thesis
      by auto
  qed
qed

lemma makeDirs_free:
  "\<forall>a \<in> set as. files w (realpath e a) = None
     \<Longrightarrow> makeDirs e as w = (None, w\<lparr>dirs := dirs w \<union> realpath e ` set as\<rparr>)"
proof (induction as arbitrary: w)
  case Nil
  then show ?case by simp
next
  case (Cons a as)
  let ?w = "w\<lparr>dirs := insert (realpath e a) (dirs w)\<rparr>"
  have "\<forall>a \<in> set as. files ?w (realpath e a) = None"
    using Cons.prems by simp
  from Cons.IH [OF this] Cons.prems show ?case
    by simp
qed

lemma refused_None:
  "refused e w p = None \<longleftrightarrow> p \<noteq> [] \<and> (\<forall>a \<in> set (ancestors p). directory w (realpath e a))"
proof (cases "List.find (\<lambda>a. \<not> directory w (realpath e a)) (ancestors p)")
  case None
  then have "\<forall>a \<in> set (ancestors p). directory w (realpath e a)"
    by (simp add: find_None_iff)
  then show ?thesis
    unfolding refused_def None by simp
next
  case (Some a)
  then have "\<not> (\<forall>a \<in> set (ancestors p). directory w (realpath e a))"
    using find_None_iff [of "\<lambda>a. \<not> directory w (realpath e a)" "ancestors p"] by auto
  then show ?thesis
    unfolding refused_def Some by simp
qed

lemma refused_same_dirs:
  assumes "dirs w' = dirs w" "refused e w p = None"
  shows "refused e w' p = None"
  using assms unfolding refused_None directory_def by simp

lemma andThen_Inl:
  "m w = (seen, Inl err, w') \<Longrightarrow> andThen m f w = (seen, Inl err, w')"
  by (simp add: andThen_def)

lemma andThen_Inr:
  "m w = (seen, Inr x, w') \<Longrightarrow> f x w' = (seen', r, w'')
     \<Longrightarrow> andThen m f w = (seen @ seen', r, w'')"
  by (simp add: andThen_def)

lemma mkdir_cases:
  assumes "fs_mkdir_recursive e d w = (seen, r, w')"
  shows "files w' = files w \<and> draws w' = draws w
         \<and> (case r of Inl _ \<Rightarrow> seen = []
             | Inr _ \<Rightarrow> seen = [(Mkdir d, w')] \<and> directory w' (realpath e d))"
proof (cases "d = []")
  case True
  with assms show ?thesis
    by (auto simp: fs_mkdir_recursive_def)
next
  case False
  obtain r0 w0 where m: "makeDirs e (ancestors d @ [d]) w = (r0, w0)"
    by (cases "makeDirs e (ancestors d @ [d]) w") auto
  note keeps = makeDirs_keeps [OF m]
  show ?thesis
  proof (cases r0)
    case None
    from makeDirs_done [OF m [unfolded None]] have "realpath e d \<in> dirs w0"
      by simp
    with assms False m None keeps show ?thesis
      by (auto simp: fs_mkdir_recursive_def directory_def)
  next
    case (Some a)
    with assms False m keeps show ?thesis
      by (auto simp: fs_mkdir_recursive_def)
  qed
qed

lemma writeFile_cases:
  assumes "fs_writeFile e p data w = (seen, r, w')"
  shows "case r of Inl _ \<Rightarrow> seen = [] \<and> w' = w
         | Inr _ \<Rightarrow> seen = writeStates e p data w
                    \<and> w' = w\<lparr>files := (files w)(realpath e p \<mapsto> data)\<rparr>
                    \<and> refused e w p = None \<and> \<not> directory w (realpath e p)"
  using assms unfolding fs_writeFile_def
  by (cases "refused e w p"; cases "namesDirectory p \<or> directory w (realpath e p)") auto

lemma readFile_cases:
  assumes "fs_readFile e p w = (seen, r, w')"
  shows "seen = [] \<and> w' = w
         \<and> (case r of Inl _ \<Rightarrow> True
             | Inr data \<Rightarrow> files w (realpath e p) = Some data)"
  using assms unfolding fs_readFile_def
  by (cases "refused e w p"; cases "directory w (realpath e p)"; cases "files w (realpath e p)")
    auto

lemma readFile_ok:
  assumes "refused e w p = None" "\<not> directory w (realpath e p)"
    "files w (realpath e p) = Some data"
  shows "fs_readFile e p w = ([], Inr data, w)"
  using assms unfolding fs_readFile_def by simp

lemma readFile_missing:
  assumes "files w (realpath e p) = None"
  shows "\<exists>err. fs_readFile e p w = ([], Inl err, w)"
  using assms unfolding fs_readFile_def
  by (cases "refused e w p"; cases "directory w (realpath e p)") auto

lemma rename_cases:
  assumes "fs_rename e old new w = (seen, r, w')"
  shows "case r of Inl _ \<Rightarrow> seen = [] \<and> w' = w
         | Inr _ \<Rightarrow> (\<exists>data. files w (realpath e old) = Some data
                      \<and> w' = w\<lparr>files := (files w)(realpath e old := None,
                                                    realpath e new \<mapsto> data)\<rparr>
                      \<and> seen = [(Rename old new, w')])"
proof -
  obtain s0 r0 w0 where rd: "fs_readFile e old w = (s0, r0, w0)"
    by (cases "fs_readFile e old w") auto
  from readFile_cases [OF rd] have s0: "s0 = []" "w0 = w"
    by simp_all
  show ?thesis
  proof (cases r0)
    case (Inl err)
    with assms rd s0 show ?thesis
      by (auto simp: fs_rename_def andThen_def)
  next
    case (Inr data)
    with readFile_cases [OF rd] have "files w (realpath e old) = Some data"
      by simp
    with assms rd s0 Inr show ?thesis
      unfolding fs_rename_def andThen_def Let_def
      by (cases "refused e w new"; cases "namesDirectory new";
          cases "directory w (realpath e new)") auto
  qed
qed

lemma rename_ok:
  assumes "refused e w old = None" "\<not> directory w (realpath e old)"
    "files w (realpath e old) = Some data"
    "refused e w new = None" "\<not> namesDirectory new" "\<not> directory w (realpath e new)"
  shows "fs_rename e old new w =
     ([(Rename old new, w\<lparr>files := (files w)(realpath e old := None,
                                                realpath e new \<mapsto> data)\<rparr>)],
      Inr (),
      w\<lparr>files := (files w)(realpath e old := None, realpath e new \<mapsto> data)\<rparr>)"
  unfolding fs_rename_def using readFile_ok [OF assms(1,2,3)] assms(4,5,6)
  by (simp add: andThen_def Let_def)

lemma writeFile_ok:
  assumes "refused e w p = None" "\<not> namesDirectory p" "\<not> directory w (realpath e p)"
  shows "fs_writeFile e p data w =
     (writeStates e p data w, Inr (), w\<lparr>files := (files w)(realpath e p \<mapsto> data)\<rparr>)"
  using assms unfolding fs_writeFile_def by simp

lemma writeStates_events:
  "map fst (writeStates e p data w) = map (\<lambda>k. Write p (take k data)) [0 ..< Suc (length data)]"
  unfolding writeStates_def by simp

lemma writeStates_worlds:
  assumes "s \<in> set (map snd (writeStates e p data w))"
  shows "dirs s = dirs w \<and> (\<forall>q. q \<noteq> realpath e p \<longrightarrow> files s q = files w q)"
  using assms unfolding writeStates_def by auto

lemma realpath_absolute:
  "\<forall>s \<in> set names. isName s \<Longrightarrow> realpath e (absolute names) = absolute names"
  unfolding realpath_def by (rule resolve_absolute)

lemma absolute_inject:
  assumes "\<forall>s \<in> set xs. isName s" "\<forall>s \<in> set ys. isName s" "absolute xs = absolute ys"
  shows "xs = ys"
proof -
  have "xs = components (absolute xs)"
    using assms(1) by (rule components_absolute [symmetric])
  also have "\<dots> = components (absolute ys)"
    by (simp only: assms(3))
  also have "\<dots> = ys"
    using assms(2) by (rule components_absolute)
  finally show ?thesis .
qed

lemma splitSlash_absolute:
  assumes "names \<noteq> []" "\<forall>s \<in> set names. isName s"
  shows "splitSlash (absolute names) = [] # names"
  using assms by (simp add: absolute_def splitSlash_names)

lemma joinSlash_rooted: "xs \<noteq> [] \<Longrightarrow> joinSlash ([] # xs) = CHR ''/'' # joinSlash xs"
  by (cases xs) simp_all

lemma ancestors_absolute:
  assumes "\<forall>s \<in> set names. isName s"
  shows "ancestors (absolute names) = map (\<lambda>k. absolute (take k names)) [1 ..< length names]"
proof (cases "names = []")
  case True
  then show ?thesis
    by (simp add: ancestors_def absolute_def)
next
  case False
  let ?f = "\<lambda>k. joinSlash (take k ([] # names))"
  have "0 < length names"
    using False by simp
  then have "[1 ..< Suc (length names)] = 1 # [Suc 1 ..< Suc (length names)]"
    by (intro upt_conv_Cons) simp
  also have "[Suc 1 ..< Suc (length names)] = map Suc [1 ..< length names]"
    by (rule map_Suc_upt [symmetric])
  finally have split: "[1 ..< Suc (length names)] = 1 # map Suc [1 ..< length names]" .
  have "?f (Suc k) = absolute (take k names)" if "k \<in> set [1 ..< length names]" for k
  proof -
    have "take k names \<noteq> []"
      using that False by simp
    then show ?thesis
      by (simp add: joinSlash_rooted absolute_def)
  qed
  then have later: "map (\<lambda>k. ?f (Suc k)) [1 ..< length names]
                      = map (\<lambda>k. absolute (take k names)) [1 ..< length names]"
    by (intro map_cong) simp_all
  have keep: "filter (\<lambda>a. a \<noteq> []) (map (\<lambda>k. absolute (take k names)) [1 ..< length names])
                = map (\<lambda>k. absolute (take k names)) [1 ..< length names]"
    by (simp add: filter_id_conv absolute_def)
  have "ancestors (absolute names)
          = filter (\<lambda>a. a \<noteq> []) (map ?f [1 ..< Suc (length names)])"
    unfolding ancestors_def splitSlash_absolute [OF False assms] by simp
  also have "\<dots> = filter (\<lambda>a. a \<noteq> []) (map (\<lambda>k. ?f (Suc k)) [1 ..< length names])"
    unfolding split by (simp add: comp_def)
  also have "\<dots> = map (\<lambda>k. absolute (take k names)) [1 ..< length names]"
    unfolding later keep ..
  finally show ?thesis .
qed

lemma dirname_absolute:
  assumes "\<forall>s \<in> set ds. isName s" "isName b"
  shows "path_dirname (absolute (ds @ [b])) = absolute ds"
proof -
  have bne: "rev b \<noteq> []" and bhd: "hd (rev b) \<noteq> CHR ''/''"
    using name_ends [OF assms(2)] by (simp_all add: hd_rev)
  have nonsep: "\<forall>y \<in> set (rev b). y \<noteq> CHR ''/''"
    using assms(2) by (auto simp: isName_def)
  show ?thesis
  proof (cases "ds = []")
    case True
    have "CHR ''/'' \<notin> set (rev b)"
      using assms(2) by (simp add: isName_def)
    then have sc: "dropWhile (\<lambda>c. c \<noteq> CHR ''/'') (dropWhile (\<lambda>c. c = CHR ''/'') (rev b)) = []"
      by (rule scan_without_separator)
    have sel: "tl (CHR ''/'' # b) = b" "hd (CHR ''/'' # b) = CHR ''/''"
      by simp_all
    have ne: "CHR ''/'' # b \<noteq> []"
      by simp
    have "path_dirname (CHR ''/'' # b) = ''/''"
      unfolding path_dirname_def Let_def sel sc if_not_P [OF ne] by simp
    then show ?thesis
      unfolding True by (simp add: absolute_def)
  next
    case False
    define x where "x = joinSlash ds"
    have x: "x \<noteq> []"
      unfolding x_def using joinSlash_names_start [OF False assms(1)] by simp
    have p: "absolute (ds @ [b]) = CHR ''/'' # x @ CHR ''/'' # b"
      unfolding absolute_def x_def using False by (simp add: joinSlash_append)
    have "rev b @ CHR ''/'' # rev x = [] \<or> hd (rev b @ CHR ''/'' # rev x) \<noteq> CHR ''/''"
      using bne bhd by simp
    then have skip1: "dropWhile (\<lambda>y. y = CHR ''/'') (rev b @ CHR ''/'' # rev x)
                        = rev b @ CHR ''/'' # rev x"
      by (rule skip_separators_none)
    have skip2: "dropWhile (\<lambda>y. y \<noteq> CHR ''/'') (rev b @ CHR ''/'' # rev x)
                   = CHR ''/'' # rev x"
      using dropWhile_all [of "rev b" "\<lambda>y. y \<noteq> CHR ''/''" "CHR ''/'' # rev x"] nonsep by simp
    have a: "rev (tl (CHR ''/'' # x @ CHR ''/'' # b)) = rev b @ CHR ''/'' # rev x"
      by simp
    have "path_dirname (CHR ''/'' # x @ CHR ''/'' # b) = CHR ''/'' # x"
      unfolding path_dirname_def Let_def a skip1 skip2 using x by simp
    then show ?thesis
      unfolding p by (simp add: absolute_def x_def)
  qed
qed

lemma absolute_extend:
  "absolute (ds @ [b]) @ sfx = absolute (ds @ [b @ sfx])"
proof (cases "ds = []")
  case True
  then show ?thesis by (simp add: absolute_def)
next
  case False
  then show ?thesis
    by (simp add: absolute_def joinSlash_append)
qed

lemma isName_extend:
  assumes "CHR ''/'' \<notin> set b" "CHR ''/'' \<notin> set sfx" "2 < length sfx"
  shows "isName (b @ sfx)"
proof -
  have "2 < length (b @ sfx)"
    using assms(3) by simp
  then have "b @ sfx \<noteq> []" "b @ sfx \<noteq> ''.''" "b @ sfx \<noteq> ''..''"
    by (auto dest: arg_cong [where f = length])
  then show ?thesis
    unfolding isName_def using assms(1,2) by simp
qed

lemma names_not_directory:
  assumes "\<forall>s \<in> set ds. isName s" "isName b"
  shows "\<not> namesDirectory (absolute (ds @ [b]))"
proof -
  have "splitSlash (absolute (ds @ [b])) = [] # ds @ [b]"
    using assms by (intro splitSlash_absolute) simp_all
  then show ?thesis
    unfolding namesDirectory_def using assms(2) by (simp add: isName_def)
qed

lemma readFile_iff:
  "fs_readFile e p w = ([], Inr data, w) \<longleftrightarrow>
     refused e w p = None \<and> \<not> directory w (realpath e p) \<and> files w (realpath e p) = Some data"
  unfolding fs_readFile_def
  by (cases "refused e w p"; cases "directory w (realpath e p)"; cases "files w (realpath e p)")
    auto

lemma refused_more_dirs:
  assumes "dirs w \<subseteq> dirs w'" "refused e w p = None"
  shows "refused e w' p = None"
  using assms unfolding refused_None directory_def by auto

lemma makeDirs_found_free:
  "makeDirs e as w = (None, w') \<Longrightarrow> \<forall>a \<in> set as. files w (realpath e a) = None"
proof (induction as arbitrary: w)
  case Nil
  then show ?case by simp
next
  case (Cons a as)
  show ?case
  proof (cases "files w (realpath e a) \<noteq> None")
    case True
    with Cons.prems show ?thesis by simp
  next
    case False
    with Cons.prems
    have "makeDirs e as (w\<lparr>dirs := insert (realpath e a) (dirs w)\<rparr>) = (None, w')"
      by simp
    from Cons.IH [OF this] False show ?thesis
      by simp
  qed
qed

lemma mkdir_keeps_files_readable:
  assumes m: "fs_mkdir_recursive e d w = (seen, Inr u, w')"
    and r: "fs_readFile e p w = ([], Inr data, w)"
  shows "fs_readFile e p (w'\<lparr>draws := n\<rparr>) = ([], Inr data, w'\<lparr>draws := n\<rparr>)"
proof -
  from r have ok: "refused e w p = None" "\<not> directory w (realpath e p)"
    "files w (realpath e p) = Some data"
    unfolding readFile_iff by simp_all
  have dne: "d \<noteq> []"
    using m unfolding fs_mkdir_recursive_def by (auto split: if_splits)
  obtain r0 w0 where mk: "makeDirs e (ancestors d @ [d]) w = (r0, w0)"
    by (cases "makeDirs e (ancestors d @ [d]) w") auto
  with m dne have r0: "r0 = None" and w0: "w0 = w'"
    unfolding fs_mkdir_recursive_def by (auto split: option.splits)
  note mk' = mk [unfolded r0 w0]
  from makeDirs_found_free [OF mk'] ok(3)
  have "realpath e p \<notin> realpath e ` set (ancestors d @ [d])"
    by auto
  with ok(2) have nd: "\<not> directory w' (realpath e p)"
    unfolding directory_def makeDirs_done [OF mk'] by simp
  from makeDirs_keeps [OF mk'] have "files w' = files w" "dirs w \<subseteq> dirs w'"
    by simp_all
  with ok nd refused_more_dirs [of w "w'\<lparr>draws := n\<rparr>" e p] show ?thesis
    unfolding readFile_iff directory_def by simp
qed

section \<open>Properties of the saved configuration\<close>

lemma loadSavedConfig_unreadable:
  "files w (realpath e configPath) = None \<Longrightarrow> loadSavedConfig e configPath w = JNull"
  using readFile_missing [of w e configPath] by (auto simp: loadSavedConfig_def)

lemma loadSavedConfig_unparsable:
  "files w (realpath e configPath) = Some raw \<Longrightarrow> jsonParse e raw = None
     \<Longrightarrow> loadSavedConfig e configPath w = JNull"
proof -
  assume held: "files w (realpath e configPath) = Some raw" and bad: "jsonParse e raw = None"
  obtain s r w' where rd: "fs_readFile e configPath w = (s, r, w')"
    by (cases "fs_readFile e configPath w") auto
  show ?thesis
  proof (cases r)
    case (Inl err)
    with rd show ?thesis
      by (simp add: loadSavedConfig_def)
  next
    case (Inr got)
    with readFile_cases [OF rd] held have "got = raw"
      by simp
    with rd Inr bad show ?thesis
      by (simp add: loadSavedConfig_def)
  qed
qed

lemma main_savedSelection_absent:
  "main_savedSelection yes JNull menuOptions = Inr ([], None)"
  by (simp add: main_savedSelection_def truthy_def)

lemma emptyConfig_read:
  "fs_readFile envNode16 ''/out/.squoosh-last.json'' worldEmptyConfig
     = ([], Inr ''{}'', worldEmptyConfig)"
proof -
  have p: "''/out/.squoosh-last.json'' = absolute [''out'', ''.squoosh-last.json'']"
    "''/out'' = absolute [''out'']"
    by (simp_all add: absolute_def)
  have n: "isName ''out''" "isName ''.squoosh-last.json''"
    by (simp_all add: isName_def)
  have r: "realpath envNode16 ''/out/.squoosh-last.json'' = ''/out/.squoosh-last.json''"
    "realpath envNode16 ''/out'' = ''/out''"
    unfolding p using n by (simp_all add: realpath_absolute)
  have a: "ancestors ''/out/.squoosh-last.json'' = [''/out'']"
    unfolding p using n ancestors_absolute [of "[''out'', ''.squoosh-last.json'']"] by simp
  show ?thesis
    unfolding readFile_iff refused_None a directory_def
    by (simp add: r worldEmptyConfig_def)
qed

text \<open>
  Claim C9 holds for a record that cannot be read or parsed: loading gives \<^verbatim>\<open>null\<close>, and
  \<^verbatim>\<open>main\<close> goes on to prompt (the three lemmas above). It fails for a record that parses
  but does not have the schema. The text \<^verbatim>\<open>{}\<close> is loaded as the empty object, not as
  \<^verbatim>\<open>null\<close>, and under \<^verbatim>\<open>--yes\<close> the call \<^verbatim>\<open>savedConfig.selectedIds.filter\<close> throws a
  \<^verbatim>\<open>TypeError\<close>, which ends the run.
\<close>

theorem saved_config_schema_mismatch_throws:
  "loadSavedConfig envNode16 ''/out/.squoosh-last.json'' worldEmptyConfig = JObj []
   \<and> main_savedSelection True (JObj []) (getMenuOptions noSupport)
       = Inl (TypeError (''Cannot read properties of undefined (reading ''
                         @ quoted ''filter'' @ '')''))"
proof -
  have "jsonParse envNode16 ''{}'' = Some (JObj [])"
    by (simp add: envNode16_def)
  then have "loadSavedConfig envNode16 ''/out/.squoosh-last.json'' worldEmptyConfig = JObj []"
    unfolding loadSavedConfig_def emptyConfig_read by simp
  then show ?thesis
    by (simp add: main_savedSelection_def truthy_def property_def)
qed
section \<open>Properties of the atomic writer\<close>

lemma decimal_chars: "set (decimal n) \<subseteq> set ''0123456789''"
proof (induction n rule: decimal.induct)
  case (1 n)
  have digit: "''0123456789'' ! k \<in> set ''0123456789''" if "k < 10" for k
    using that by (intro nth_mem) simp
  show ?case
  proof (cases "n < 10")
    case True
    then show ?thesis
      using digit [of n] by (subst decimal.simps) simp
  next
    case False
    have "n mod 10 < 10" by simp
    from digit [OF this] 1 [OF False] False show ?thesis
      by (subst decimal.simps) simp
  qed
qed

lemma hexDigits_chars: "set (hexDigits ds) \<subseteq> set ''0123456789abcdef''"
proof -
  have "''0123456789abcdef'' ! (k mod 16) \<in> set ''0123456789abcdef''" for k :: nat
    by (intro nth_mem) simp
  then show ?thesis
    unfolding hexDigits_def by auto
qed

lemma stamp_no_separator: "CHR ''/'' \<notin> set (''.tmp-'' @ stamp e n)"
proof -
  have "CHR ''/'' \<notin> set ''0123456789''" "CHR ''/'' \<notin> set ''0123456789abcdef''"
    by simp_all
  then have "CHR ''/'' \<notin> set (decimal k)" "CHR ''/'' \<notin> set (hexDigits ds)" for k ds
    using decimal_chars [of k] hexDigits_chars [of ds] by blast+
  then show ?thesis
    unfolding stamp_def by simp
qed

lemma stamp_long: "2 < length (''.tmp-'' @ stamp e n)"
  by simp

lemma temp_is_another_file: "realpath e (tempPathAt e' target n) \<noteq> realpath e target"
  unfolding tempPathAt_def using stamp_no_separator stamp_long by (rule realpath_extend)

lemma decimal_nonempty: "decimal n \<noteq> []"
  by (subst decimal.simps) simp

lemma decimal_last: "last (decimal n) = ''0123456789'' ! (n mod 10)"
  using decimal_nonempty [of "n div 10"] by (subst decimal.simps) simp

lemma decimal_butlast: "butlast (decimal n) = (if n < 10 then [] else decimal (n div 10))"
  by (subst decimal.simps) simp

lemma digit_inject:
  assumes "i < 10" "j < 10" "''0123456789'' ! i = ''0123456789'' ! j"
  shows "i = j"
proof -
  have "distinct ''0123456789''"
    by simp
  moreover have "i < length ''0123456789''" "j < length ''0123456789''"
    using assms(1,2) by simp_all
  ultimately show ?thesis
    using assms(3) nth_eq_iff_index_eq by blast
qed

lemma decimal_inject: "decimal m = decimal n \<Longrightarrow> m = n"
proof (induction m arbitrary: n rule: decimal.induct)
  case (1 m)
  from 1(2) have "last (decimal m) = last (decimal n)"
    by simp
  then have "''0123456789'' ! (m mod 10) = ''0123456789'' ! (n mod 10)"
    unfolding decimal_last .
  then have units: "m mod 10 = n mod 10"
    by (intro digit_inject) simp_all
  from 1(2) have front: "butlast (decimal m) = butlast (decimal n)"
    by simp
  show ?case
  proof (cases "m < 10")
    case True
    with front have "n < 10"
      unfolding decimal_butlast using decimal_nonempty [of "n div 10"] by (auto split: if_splits)
    with True units show ?thesis
      by simp
  next
    case False
    with front have big: "\<not> n < 10" and "decimal (m div 10) = decimal (n div 10)"
      unfolding decimal_butlast using decimal_nonempty [of "m div 10"]
      by (auto split: if_splits)
    with 1(1) [OF False] have "m div 10 = n div 10"
      by simp
    with units show ?thesis
      by (metis div_mult_mod_eq)
  qed
qed

lemma cut_at_first:
  assumes "c \<notin> set xs" "c \<notin> set xs'" "xs @ c # ys = xs' @ c # ys'"
  shows "xs = xs' \<and> ys = ys'"
proof -
  have t: "takeWhile (\<lambda>x. x \<noteq> c) (zs @ c # rest) = zs" if "c \<notin> set zs" for zs rest
    using that by (induction zs) auto
  have "xs = takeWhile (\<lambda>x. x \<noteq> c) (xs @ c # ys)"
    using assms(1) by (simp add: t)
  also have "\<dots> = takeWhile (\<lambda>x. x \<noteq> c) (xs' @ c # ys')"
    by (simp only: assms(3))
  also have "\<dots> = xs'"
    using assms(2) by (simp add: t)
  finally have "xs = xs'" .
  with assms(3) show ?thesis
    by simp
qed

lemma decimal_no_dash: "CHR ''-'' \<notin> set (decimal n)"
proof -
  have "CHR ''-'' \<notin> set ''0123456789''"
    by simp
  then show ?thesis
    using decimal_chars [of n] by blast
qed

lemma stamp_eq_iff:
  "stamp e n = stamp e' n' \<longleftrightarrow>
     pid e = pid e' \<and> dateNow e n = dateNow e' n'
     \<and> hexDigits (randomHex e n) = hexDigits (randomHex e' n')"
proof
  assume eq: "stamp e n = stamp e' n'"
  then have "decimal (pid e) @ CHR ''-'' # (decimal (dateNow e n) @ ''-'' @ hexDigits (randomHex e n))
      = decimal (pid e') @ CHR ''-'' # (decimal (dateNow e' n') @ ''-'' @ hexDigits (randomHex e' n'))"
    unfolding stamp_def by simp
  from cut_at_first [OF decimal_no_dash decimal_no_dash this]
  have p: "decimal (pid e) = decimal (pid e')"
    and rest: "decimal (dateNow e n) @ CHR ''-'' # hexDigits (randomHex e n)
             = decimal (dateNow e' n') @ CHR ''-'' # hexDigits (randomHex e' n')"
    by simp_all
  from cut_at_first [OF decimal_no_dash decimal_no_dash rest] p
  show "pid e = pid e' \<and> dateNow e n = dateNow e' n'
     \<and> hexDigits (randomHex e n) = hexDigits (randomHex e' n')"
    using decimal_inject by blast
next
  assume "pid e = pid e' \<and> dateNow e n = dateNow e' n'
     \<and> hexDigits (randomHex e n) = hexDigits (randomHex e' n')"
  then show "stamp e n = stamp e' n'"
    unfolding stamp_def by simp
qed

lemma temp_eq_iff:
  "tempPathAt e target n = tempPathAt e' target n' \<longleftrightarrow>
     pid e = pid e' \<and> dateNow e n = dateNow e' n'
     \<and> hexDigits (randomHex e n) = hexDigits (randomHex e' n')"
  unfolding tempPathAt_def stamp_eq_iff [symmetric] by simp

lemma drawn_temp:
  "getTempPath e target w
     = ([], Inr (tempPathAt e target (draws w)), w\<lparr>draws := Suc (draws w)\<rparr>)"
  by (simp add: getTempPath_def tempPathAt_def)

lemma plan_prefixes:
  "prefix [] (writePlan target temp data)"
  "prefix [Mkdir (path_dirname target)] (writePlan target temp data)"
  "prefix (Mkdir (path_dirname target) # map fst (writeStates e temp data w2))
     (writePlan target temp data)"
  unfolding writePlan_def writeStates_events by simp_all

text \<open>
  The two writers differ in their third step only. Whatever that step is, if it does
  nothing when it fails and writes the content to the temporary path when it succeeds,
  the content is placed atomically.
\<close>

lemma placed_by_steps:
  fixes e target data w step
  defines "temp \<equiv> tempPathAt e target (draws w)"
  assumes step: "\<And>w2 s3 r3 w3. files w2 = files w \<Longrightarrow> step temp w2 = (s3, r3, w3) \<Longrightarrow>
       (case r3 of Inl _ \<Rightarrow> s3 = [] \<and> w3 = w2
        | Inr _ \<Rightarrow> s3 = writeStates e temp data w2
                   \<and> w3 = w2\<lparr>files := (files w2)(realpath e temp \<mapsto> data)\<rparr>)"
  shows "placedAtomically e target temp data w
     (andThen (ensureDir e (path_dirname target)) (\<lambda>_.
      andThen (getTempPath e target) (\<lambda>tempPath.
      andThen (step tempPath) (\<lambda>_.
      fs_rename e tempPath target))) w)"
proof -
  let ?D = "path_dirname target"
  let ?T = "realpath e target"
  let ?last = "\<lambda>tempPath. andThen (step tempPath) (\<lambda>_. fs_rename e tempPath target)"
  let ?rest = "\<lambda>_ :: unit. andThen (getTempPath e target) ?last"
  have other: "realpath e temp \<noteq> ?T"
    unfolding temp_def by (rule temp_is_another_file)
  obtain s1 r1 w1 where m: "ensureDir e ?D w = (s1, r1, w1)"
    by (cases "ensureDir e ?D w") auto
  note mc = mkdir_cases [OF m [unfolded ensureDir_def]]
  from mc have f1: "files w1 = files w" and d1: "draws w1 = draws w"
    by simp_all
  show ?thesis
  proof (cases r1)
    case (Inl err)
    with mc have "s1 = []"
      by simp
    with andThen_Inl [where m = "ensureDir e ?D" and w = w and f = ?rest, OF m [unfolded Inl]] f1 show ?thesis
      unfolding placedAtomically_def by (simp add: plan_prefixes)
  next
    case (Inr u)
    with mc have s1: "s1 = [(Mkdir ?D, w1)]" and dir1: "directory w1 (realpath e ?D)"
      by simp_all
    define w2 where "w2 = w1\<lparr>draws := Suc (draws w1)\<rparr>"
    have t: "getTempPath e target w1 = ([], Inr temp, w2)"
      unfolding drawn_temp w2_def temp_def d1 ..
    have f2: "files w2 = files w" and dirs2: "dirs w2 = dirs w1"
      unfolding w2_def using f1 by simp_all
    obtain s3 r3 w3 where st: "step temp w2 = (s3, r3, w3)"
      by (cases "step temp w2") auto
    note sc = step [OF f2 st]
    have grow: "directory s (realpath e ?D) \<and> files s ?T = files w ?T"
      if "s \<in> set (map snd (writeStates e temp data w2))" for s
      using writeStates_worlds [OF that] other dir1 f2 dirs2 by (simp add: directory_def)
    show ?thesis
    proof (cases r3)
      case (Inl err)
      with sc have "s3 = []" "w3 = w2"
        by simp_all
      with st Inl have "step temp w2 = ([], Inl err, w2)"
        by simp
      then have "andThen (step temp) (\<lambda>_. fs_rename e temp target) w2 = ([], Inl err, w2)"
        by (rule andThen_Inl [where m = "step temp" and w = w2])
      from andThen_Inr [where m = "getTempPath e target" and w = w1 and f = ?last, OF t this]
      have "?rest u w1 = ([], Inl err, w2)"
        by simp
      from andThen_Inr [where m = "ensureDir e ?D" and w = w and f = ?rest, OF m [unfolded Inr s1] this] f2 dir1 f1 show ?thesis
        unfolding placedAtomically_def by (simp add: plan_prefixes)
    next
      case ok: (Inr u3)
      with sc have s3: "s3 = writeStates e temp data w2"
        and w3: "w3 = w2\<lparr>files := (files w2)(realpath e temp \<mapsto> data)\<rparr>"
        by simp_all
      have f3: "files w3 ?T = files w ?T" and dirs3: "dirs w3 = dirs w1"
        and tmp3: "files w3 (realpath e temp) = Some data"
        unfolding w3 using other f2 dirs2 by simp_all
      obtain s4 r4 w4 where rn: "fs_rename e temp target w3 = (s4, r4, w4)"
        by (cases "fs_rename e temp target w3") auto
      note rc = rename_cases [OF rn]
      have run: "andThen (ensureDir e ?D) ?rest w
                   = ((Mkdir ?D, w1) # writeStates e temp data w2 @ s4, r4, w4)"
      proof -
        from andThen_Inr [where m = "step temp" and w = w2 and f = "\<lambda>_. fs_rename e temp target", OF st [unfolded ok s3] rn]
        have "andThen (step temp) (\<lambda>_. fs_rename e temp target) w2
                = (writeStates e temp data w2 @ s4, r4, w4)" .
        from andThen_Inr [where m = "getTempPath e target" and w = w1 and f = ?last, OF t this]
        have "?rest u w1 = (writeStates e temp data w2 @ s4, r4, w4)"
          by simp
        from andThen_Inr [where m = "ensureDir e ?D" and w = w and f = ?rest, OF m [unfolded Inr s1] this] show ?thesis
          by simp
      qed
      show ?thesis
      proof (cases r4)
        case (Inl err)
        with rc have "s4 = []" "w4 = w3"
          by simp_all
        with Inl f3 dir1 f1 grow show ?thesis
          unfolding placedAtomically_def run
          by (simp add: plan_prefixes)
      next
        case (Inr u4)
        with rc tmp3
        have w4: "w4 = w3\<lparr>files := (files w3)(realpath e temp := None, ?T \<mapsto> data)\<rparr>"
          and s4: "s4 = [(Rename temp target, w4)]"
          by auto
        have f4: "files w4 ?T = Some data" and dir4: "directory w4 (realpath e ?D)"
          unfolding w4 using dir1 dirs3 by (simp_all add: directory_def)
        from Inr f4 dir4 dir1 f1 grow show ?thesis
          unfolding placedAtomically_def run s4
          by (simp add: writePlan_def writeStates_events)
      qed
    qed
  qed
qed

lemma write_placedAtomically:
  "placedAtomically e target (tempPathAt e target (draws w)) data w
     (writeFileAtomic e target data w)"
  unfolding writeFileAtomic_def
proof (rule placed_by_steps)
  fix w2 s3 r3 w3
  assume "fs_writeFile e (tempPathAt e target (draws w)) data w2 = (s3, r3, w3)"
  from writeFile_cases [OF this]
  show "case r3 of Inl _ \<Rightarrow> s3 = [] \<and> w3 = w2
        | Inr _ \<Rightarrow> s3 = writeStates e (tempPathAt e target (draws w)) data w2
            \<and> w3 = w2\<lparr>files := (files w2)(realpath e (tempPathAt e target (draws w)) \<mapsto> data)\<rparr>"
    by (cases r3) simp_all
qed

lemma copyFile_cases:
  assumes "fs_copyFile e src dest w = (seen, r, w')"
    and "files w (realpath e src) = Some data" "realpath e src \<noteq> realpath e dest"
  shows "case r of Inl _ \<Rightarrow> seen = [] \<and> w' = w
         | Inr _ \<Rightarrow> seen = writeStates e dest data w
                    \<and> w' = w\<lparr>files := (files w)(realpath e dest \<mapsto> data)\<rparr>"
proof -
  obtain s0 r0 w0 where rd: "fs_readFile e src w = (s0, r0, w0)"
    by (cases "fs_readFile e src w") auto
  from readFile_cases [OF rd] have s0: "s0 = []" "w0 = w"
    by simp_all
  show ?thesis
  proof (cases r0)
    case (Inl err)
    with assms(1) rd s0 show ?thesis
      by (auto simp: fs_copyFile_def andThen_def)
  next
    case (Inr got)
    with readFile_cases [OF rd] assms(2) have "got = data"
      by simp
    with assms(1,3) rd s0 Inr have "fs_writeFile e dest data w = (seen, r, w')"
      by (auto simp: fs_copyFile_def andThen_def split: prod.splits)
    from writeFile_cases [OF this] show ?thesis
      by (cases r) simp_all
  qed
qed

lemma copy_placedAtomically:
  assumes "files w (realpath e source) = Some data"
    and "realpath e source \<noteq> realpath e (tempPathAt e target (draws w))"
  shows "placedAtomically e target (tempPathAt e target (draws w)) data w
     (copyFileAtomic e source target w)"
  unfolding copyFileAtomic_def
proof (rule placed_by_steps)
  fix w2 s3 r3 w3
  assume "files w2 = files w"
    and "fs_copyFile e source (tempPathAt e target (draws w)) w2 = (s3, r3, w3)"
  with assms copyFile_cases [of e source "tempPathAt e target (draws w)" w2 s3 r3 w3 data]
  show "case r3 of Inl _ \<Rightarrow> s3 = [] \<and> w3 = w2
        | Inr _ \<Rightarrow> s3 = writeStates e (tempPathAt e target (draws w)) data w2
            \<and> w3 = w2\<lparr>files := (files w2)(realpath e (tempPathAt e target (draws w)) \<mapsto> data)\<rparr>"
    by simp
qed

lemma copy_source_missing:
  assumes "files w (realpath e source) = None"
  shows "case copyFileAtomic e source target w of
           (seen, r, w') \<Rightarrow>
             r \<noteq> Inr () \<and> files w' = files w
             \<and> (\<forall>s \<in> set (map snd seen). files s = files w)"
proof -
  let ?D = "path_dirname target"
  let ?last = "\<lambda>tempPath. andThen (fs_copyFile e source tempPath)
      (\<lambda>_. fs_rename e tempPath target)"
  let ?rest = "\<lambda>_ :: unit. andThen (getTempPath e target) ?last"
  obtain s1 r1 w1 where m: "ensureDir e ?D w = (s1, r1, w1)"
    by (cases "ensureDir e ?D w") auto
  note mc = mkdir_cases [OF m [unfolded ensureDir_def]]
  from mc have f1: "files w1 = files w"
    by simp
  show ?thesis
  proof (cases r1)
    case (Inl err)
    with mc have "s1 = []"
      by simp
    with andThen_Inl [where m = "ensureDir e ?D" and w = w and f = ?rest, OF m [unfolded Inl]] f1 show ?thesis
      unfolding copyFileAtomic_def by simp
  next
    case (Inr u)
    with mc have s1: "s1 = [(Mkdir ?D, w1)]"
      by simp
    define w2 where "w2 = w1\<lparr>draws := Suc (draws w1)\<rparr>"
    define temp where "temp = tempPathAt e target (draws w1)"
    have t: "getTempPath e target w1 = ([], Inr temp, w2)"
      unfolding drawn_temp w2_def temp_def ..
    have f2: "files w2 = files w"
      unfolding w2_def using f1 by simp
    then have "files w2 (realpath e source) = None"
      using assms by simp
    from readFile_missing [OF this] obtain err
      where "fs_readFile e source w2 = ([], Inl err, w2)"
      by blast
    then have "fs_copyFile e source temp w2 = ([], Inl err, w2)"
      unfolding fs_copyFile_def by (rule andThen_Inl [where m = "fs_readFile e source" and w = w2])
    then have "andThen (fs_copyFile e source temp) (\<lambda>_. fs_rename e temp target) w2
                 = ([], Inl err, w2)"
      by (rule andThen_Inl [where m = "fs_copyFile e source temp" and w = w2])
    from andThen_Inr [where m = "getTempPath e target" and w = w1 and f = ?last, OF t this]
    have "?rest u w1 = ([], Inl err, w2)"
      by simp
    from andThen_Inr [where m = "ensureDir e ?D" and w = w and f = ?rest, OF m [unfolded Inr s1] this] f1 f2 show ?thesis
      unfolding copyFileAtomic_def by simp
  qed
qed

text \<open>
  When the target is an absolute, normalized path of a file, no regular file is in the
  place of a directory on the way to it, and neither it nor the temporary path is a
  directory, every step succeeds.
\<close>

lemma writer_succeeds:
  fixes e ds b data w step
  defines "target \<equiv> absolute (ds @ [b])"
  defines "temp \<equiv> tempPathAt e target (draws w)"
  defines "made \<equiv> ancestors (path_dirname target) @ [path_dirname target]"
  defines "w1 \<equiv> w\<lparr>dirs := dirs w \<union> set made\<rparr>"
  defines "w2 \<equiv> w1\<lparr>draws := Suc (draws w)\<rparr>"
  defines "w3 \<equiv> w2\<lparr>files := (files w)(temp \<mapsto> data)\<rparr>"
  defines "w4 \<equiv> w3\<lparr>files := (files w)(temp := None, target \<mapsto> data)\<rparr>"
  assumes names: "\<forall>s \<in> set (ds @ [b]). isName s"
    and free: "\<forall>a \<in> set made. files w a = None"
    and nodir: "target \<notin> dirs w" "temp \<notin> dirs w"
    and step: "step temp w2 = fs_writeFile e temp data w2"
  shows "andThen (ensureDir e (path_dirname target)) (\<lambda>_.
           andThen (getTempPath e target) (\<lambda>tempPath.
           andThen (step tempPath) (\<lambda>_.
           fs_rename e tempPath target))) w
         = ((Mkdir (path_dirname target), w1) # writeStates e temp data w2
              @ [(Rename temp target, w4)], Inr (), w4)"
proof -
  let ?D = "path_dirname target"
  let ?last = "\<lambda>tempPath. andThen (step tempPath) (\<lambda>_. fs_rename e tempPath target)"
  let ?rest = "\<lambda>_ :: unit. andThen (getTempPath e target) ?last"
  define sfx where "sfx = ''.tmp-'' @ stamp e (draws w)"
  have dn: "\<forall>s \<in> set ds. isName s" and bn: "isName b"
    using names by simp_all
  have D: "?D = absolute ds"
    unfolding target_def using dn bn by (rule dirname_absolute)
  have made: "made = map (\<lambda>k. absolute (take k ds)) [1 ..< length ds] @ [absolute ds]"
    unfolding made_def D ancestors_absolute [OF dn] ..
  have shape: "\<exists>k. a = absolute (take k ds)" if "a \<in> set made" for a
  proof -
    from that consider "a \<in> set (map (\<lambda>k. absolute (take k ds)) [1 ..< length ds])"
      | "a = absolute ds"
      unfolding made by auto
    then show ?thesis
    proof cases
      case 1
      then show ?thesis by auto
    next
      case 2
      then have "a = absolute (take (length ds) ds)" by simp
      then show ?thesis ..
    qed
  qed
  have taken: "\<forall>s \<in> set (take k ds). isName s" for k
    using dn by (auto dest: in_set_takeD)
  have rp: "realpath e a = a" if "a \<in> set made" for a
    using shape [OF that] taken by (auto simp: realpath_absolute)
  have tn: "temp = absolute (ds @ [b @ sfx])"
    unfolding temp_def tempPathAt_def target_def sfx_def by (rule absolute_extend)
  have sfx: "CHR ''/'' \<notin> set sfx" "2 < length sfx"
    unfolding sfx_def using stamp_no_separator by simp_all
  have "isName (b @ sfx)"
    using bn sfx by (intro isName_extend) (simp_all add: isName_def)
  with dn have names': "\<forall>s \<in> set (ds @ [b @ sfx]). isName s"
    by simp
  have rt: "realpath e target = target"
    unfolding target_def using names by (rule realpath_absolute)
  have rtemp: "realpath e temp = temp"
    unfolding tn using names' by (rule realpath_absolute)
  have fresh: "absolute (ds @ [x]) \<notin> set made \<and> absolute (ds @ [x]) \<noteq> ''/''"
    if "isName x" for x
  proof -
    have all: "\<forall>s \<in> set (ds @ [x]). isName s"
      using dn that by simp
    have "absolute (ds @ [x]) \<noteq> absolute (take k ds)" for k
    proof
      assume "absolute (ds @ [x]) = absolute (take k ds)"
      from absolute_inject [OF all taken this] have "length (ds @ [x]) = length (take k ds)"
        by simp
      then show False
        by simp
    qed
    moreover have "absolute (ds @ [x]) \<noteq> absolute []"
    proof
      assume "absolute (ds @ [x]) = absolute []"
      from absolute_inject [OF all _ this] show False
        by simp
    qed
    ultimately show ?thesis
      using shape by (auto simp: absolute_def)
  qed
  have way: "a \<in> set made" if "a \<in> set (ancestors target)" for a
  proof -
    from that obtain k where k: "1 \<le> k" "k < Suc (length ds)"
      and a: "a = absolute (take k (ds @ [b]))"
      unfolding target_def ancestors_absolute [OF names] by auto
    from k a have a': "a = absolute (take k ds)"
      by simp
    show ?thesis
    proof (cases "k < length ds")
      case True
      with k(1) have "k \<in> set [1 ..< length ds]"
        by simp
      then show ?thesis
        unfolding made a' by simp
    next
      case False
      with k(2) have "take k ds = ds"
        by simp
      then show ?thesis
        unfolding made a' by simp
    qed
  qed
  have way': "ancestors temp = ancestors target"
    unfolding temp_def tempPathAt_def using stamp_no_separator by (rule ancestors_extend)
  have "\<forall>a \<in> set made. files w (realpath e a) = None"
    using free rp by simp
  from makeDirs_free [OF this]
  have "makeDirs e made w = (None, w\<lparr>dirs := dirs w \<union> realpath e ` set made\<rparr>)" .
  moreover have "realpath e ` set made = set made"
    using rp by force
  ultimately have "makeDirs e made w = (None, w1)"
    unfolding w1_def by (simp only:)
  then have mk: "makeDirs e (ancestors ?D @ [?D]) w = (None, w1)"
    unfolding made_def .
  have "?D \<noteq> []"
    unfolding D absolute_def by simp
  with mk have m: "ensureDir e ?D w = ([(Mkdir ?D, w1)], Inr (), w1)"
    unfolding ensureDir_def fs_mkdir_recursive_def by simp
  have t: "getTempPath e target w1 = ([], Inr temp, w2)"
    unfolding drawn_temp temp_def w2_def w1_def by simp
  have dirs2: "dirs w2 = dirs w \<union> set made" and files2: "files w2 = files w"
    unfolding w2_def w1_def by simp_all
  have tne: "temp \<noteq> []" "target \<noteq> []"
    unfolding tn target_def absolute_def by simp_all
  have open2: "directory w2 (realpath e a)" if "a \<in> set (ancestors target)" for a
    using way [OF that] rp unfolding directory_def dirs2 by simp
  have r2: "refused e w2 temp = None" "refused e w2 target = None"
    unfolding refused_None way' using tne open2 by simp_all
  have nd: "\<not> namesDirectory temp" "\<not> namesDirectory target"
    unfolding tn target_def using dn bn \<open>isName (b @ sfx)\<close> by (simp_all add: names_not_directory)
  have nodir2: "\<not> directory w2 (realpath e temp)" "\<not> directory w2 (realpath e target)"
    unfolding rtemp rt directory_def dirs2
    using nodir fresh [OF bn] fresh [OF \<open>isName (b @ sfx)\<close>]
    unfolding tn [symmetric] target_def [symmetric] by simp_all
  have "fs_writeFile e temp data w2 = (writeStates e temp data w2, Inr (), w3)"
    unfolding writeFile_ok [OF r2(1) nd(1) nodir2(1)] w3_def rtemp files2 ..
  with step have st: "step temp w2 = (writeStates e temp data w2, Inr (), w3)"
    by simp
  have dirs3: "dirs w3 = dirs w2" and files3: "files w3 = (files w)(temp \<mapsto> data)"
    unfolding w3_def by simp_all
  have r3: "refused e w3 temp = None" "refused e w3 target = None"
    using r2 dirs3 by (simp_all add: refused_same_dirs)
  have nodir3: "\<not> directory w3 (realpath e temp)" "\<not> directory w3 (realpath e target)"
    using nodir2 unfolding directory_def dirs3 by simp_all
  have "files w3 (realpath e temp) = Some data"
    unfolding rtemp files3 by simp
  from rename_ok [OF r3(1) nodir3(1) this r3(2) nd(2) nodir3(2)]
  have rn: "fs_rename e temp target w3 = ([(Rename temp target, w4)], Inr (), w4)"
    unfolding rtemp rt w4_def files3 by simp
  from andThen_Inr [where m = "step temp" and w = w2 and f = "\<lambda>_. fs_rename e temp target",
      OF st rn]
  have "andThen (step temp) (\<lambda>_. fs_rename e temp target) w2
          = (writeStates e temp data w2 @ [(Rename temp target, w4)], Inr (), w4)" .
  from andThen_Inr [where m = "getTempPath e target" and w = w1 and f = ?last, OF t this]
  have "andThen (getTempPath e target) ?last w1
          = (writeStates e temp data w2 @ [(Rename temp target, w4)], Inr (), w4)"
    by simp
  from andThen_Inr [where m = "ensureDir e ?D" and w = w and f = ?rest, OF m this]
  show ?thesis
    by simp
qed

lemma writeFileAtomic_succeeds:
  fixes e ds b data w
  defines "target \<equiv> absolute (ds @ [b])"
  defines "temp \<equiv> tempPathAt e target (draws w)"
  defines "made \<equiv> ancestors (path_dirname target) @ [path_dirname target]"
  defines "w1 \<equiv> w\<lparr>dirs := dirs w \<union> set made\<rparr>"
  defines "w2 \<equiv> w1\<lparr>draws := Suc (draws w)\<rparr>"
  defines "w3 \<equiv> w2\<lparr>files := (files w)(temp \<mapsto> data)\<rparr>"
  defines "w4 \<equiv> w3\<lparr>files := (files w)(temp := None, target \<mapsto> data)\<rparr>"
  assumes "\<forall>s \<in> set (ds @ [b]). isName s"
    and "\<forall>a \<in> set made. files w a = None"
    and "target \<notin> dirs w" "temp \<notin> dirs w"
  shows "writeFileAtomic e target data w
         = ((Mkdir (path_dirname target), w1) # writeStates e temp data w2
              @ [(Rename temp target, w4)], Inr (), w4)"
  unfolding writeFileAtomic_def target_def temp_def made_def w1_def w2_def w3_def w4_def
  using assms(8-) unfolding target_def temp_def made_def
  by (intro writer_succeeds) simp_all

text \<open>
  A copy is the write of what the source holds, when the source can be read and is not
  the temporary file itself.
\<close>

lemma copy_is_write:
  assumes r: "fs_readFile e source w = ([], Inr data, w)"
    and other: "realpath e source \<noteq> realpath e (tempPathAt e target (draws w))"
  shows "copyFileAtomic e source target w = writeFileAtomic e target data w"
proof -
  let ?D = "path_dirname target"
  let ?lastc = "\<lambda>tempPath. andThen (fs_copyFile e source tempPath)
      (\<lambda>_. fs_rename e tempPath target)"
  let ?lastw = "\<lambda>tempPath. andThen (fs_writeFile e tempPath data)
      (\<lambda>_. fs_rename e tempPath target)"
  obtain s1 r1 w1 where m: "ensureDir e ?D w = (s1, r1, w1)"
    by (cases "ensureDir e ?D w") auto
  note mc = mkdir_cases [OF m [unfolded ensureDir_def]]
  show ?thesis
  proof (cases r1)
    case (Inl err)
    with m show ?thesis
      unfolding copyFileAtomic_def writeFileAtomic_def by (simp add: andThen_def)
  next
    case (Inr u)
    define temp where "temp = tempPathAt e target (draws w)"
    define w2 where "w2 = w1\<lparr>draws := Suc (draws w1)\<rparr>"
    have d1: "draws w1 = draws w"
      using mc by simp
    have t: "getTempPath e target w1 = ([], Inr temp, w2)"
      unfolding drawn_temp temp_def w2_def d1 ..
    from mkdir_keeps_files_readable [OF m [unfolded ensureDir_def Inr] r]
    have rd: "fs_readFile e source w2 = ([], Inr data, w2)"
      unfolding w2_def .
    have "fs_copyFile e source temp w2 = fs_writeFile e temp data w2"
      unfolding fs_copyFile_def using rd other [folded temp_def]
      by (cases "fs_writeFile e temp data w2") (simp add: andThen_def)
    then have "?lastc temp w2 = ?lastw temp w2"
      by (simp add: andThen_def)
    then have "andThen (getTempPath e target) ?lastc w1 = andThen (getTempPath e target) ?lastw w1"
      using t by (simp add: andThen_def)
    with m Inr show ?thesis
      unfolding copyFileAtomic_def writeFileAtomic_def by (simp add: andThen_def)
  qed
qed

text \<open>The runs of the examples.\<close>

lemma example_paths:
  "''/out/a-squoosh.webp'' = absolute ([''out''] @ [''a-squoosh.webp''])"
  "''/in/a.webp'' = absolute [''in'', ''a.webp'']"
  "''/out/a-squoosh.webp.tmp-1-0-0'' = absolute [''out'', ''a-squoosh.webp.tmp-1-0-0'']"
  "''/out'' = absolute [''out'']" "''/in'' = absolute [''in'']"
  by (simp_all add: absolute_def)

lemma example_temp:
  "tempPathAt envNode16 ''/out/a-squoosh.webp'' 0 = ''/out/a-squoosh.webp.tmp-1-0-0''"
  by (simp add: tempPathAt_def stamp_def envNode16_def decimal.simps hexDigits_def)

lemma example_realpaths:
  "realpath e ''/out/a-squoosh.webp'' = ''/out/a-squoosh.webp''"
  "realpath e ''/in/a.webp'' = ''/in/a.webp''"
  "realpath e ''/out/a-squoosh.webp.tmp-1-0-0'' = ''/out/a-squoosh.webp.tmp-1-0-0''"
  "realpath e ''/out'' = ''/out''" "realpath e ''/in'' = ''/in''"
  unfolding example_paths by (rule realpath_absolute, simp add: isName_def)+

lemma example_ancestors:
  "ancestors ''/out/a-squoosh.webp'' = [''/out'']"
  "ancestors ''/in/a.webp'' = [''/in'']"
  "ancestors ''/out/a-squoosh.webp.tmp-1-0-0'' = [''/out'']"
  "ancestors ''/out'' = []"
proof -
  have "ancestors (absolute [a, b]) = [absolute [a]]" if "isName a" "isName b" for a b
    using that ancestors_absolute [of "[a, b]"] by simp
  then show "ancestors ''/out/a-squoosh.webp'' = [''/out'']"
    "ancestors ''/in/a.webp'' = [''/in'']"
    "ancestors ''/out/a-squoosh.webp.tmp-1-0-0'' = [''/out'']"
    unfolding example_paths by (simp_all add: isName_def)
  show "ancestors ''/out'' = []"
    unfolding example_paths using ancestors_absolute [of "[''out'']"] by (simp add: isName_def)
qed

lemma example_dirname: "path_dirname ''/out/a-squoosh.webp'' = ''/out''"
  unfolding example_paths using dirname_absolute [of "[''out'']" "''a-squoosh.webp''"]
  by (simp add: isName_def)

lemma overwrite_run:
  "writeFileAtomic envNode16 ''/out/a-squoosh.webp'' ''new'' worldOverwrite
     = ((Mkdir ''/out'', worldOverwrite)
          # writeStates envNode16 ''/out/a-squoosh.webp.tmp-1-0-0'' ''new''
              (worldOverwrite\<lparr>draws := 1\<rparr>)
          @ [(Rename ''/out/a-squoosh.webp.tmp-1-0-0'' ''/out/a-squoosh.webp'',
              worldOverwrite\<lparr>draws := 1,
                files := [''/out/a-squoosh.webp'' \<mapsto> ''new'', ''/in/a.webp'' \<mapsto> ''new'']\<rparr>)],
        Inr (),
        worldOverwrite\<lparr>draws := 1,
          files := [''/out/a-squoosh.webp'' \<mapsto> ''new'', ''/in/a.webp'' \<mapsto> ''new'']\<rparr>)"
proof -
  have names: "\<forall>s \<in> set ([''out''] @ [''a-squoosh.webp'']). isName s"
    by (simp add: isName_def)
  have d0: "draws worldOverwrite = 0"
    by (simp add: worldOverwrite_def)
  have "dirs worldOverwrite \<union> set ([] @ [''/out'']) = dirs worldOverwrite"
    by (auto simp: worldOverwrite_def)
  then have same: "worldOverwrite\<lparr>dirs := dirs worldOverwrite \<union> set ([] @ [''/out''])\<rparr>
      = worldOverwrite"
    by simp
  have free: "\<forall>a \<in> set ([] @ [''/out'']). files worldOverwrite a = None"
    and nodir: "''/out/a-squoosh.webp'' \<notin> dirs worldOverwrite"
      "''/out/a-squoosh.webp.tmp-1-0-0'' \<notin> dirs worldOverwrite"
    by (simp_all add: worldOverwrite_def)
  note run = writeFileAtomic_succeeds [OF names, of worldOverwrite envNode16 "''new''",
      folded example_paths, unfolded d0 example_temp example_dirname example_ancestors same,
      OF free nodir]
  have "(files worldOverwrite)(''/out/a-squoosh.webp.tmp-1-0-0'' := None,
                  ''/out/a-squoosh.webp'' \<mapsto> ''new'')
      = [''/out/a-squoosh.webp'' \<mapsto> ''new'', ''/in/a.webp'' \<mapsto> ''new'']"
    by (auto simp: worldOverwrite_def)
  then show ?thesis
    unfolding run by simp
qed

lemma overwrite_source:
  "fs_readFile envNode16 ''/in/a.webp'' worldOverwrite = ([], Inr ''new'', worldOverwrite)"
  unfolding readFile_iff refused_None example_ancestors directory_def
  by (simp add: worldOverwrite_def example_realpaths)

lemma stale_temp_run:
  "copyFileAtomic envNode16 ''/out/a-squoosh.webp.tmp-1-0-0'' ''/out/a-squoosh.webp''
     worldStaleTemp
     = ([(Mkdir ''/out'', worldStaleTemp),
         (Rename ''/out/a-squoosh.webp.tmp-1-0-0'' ''/out/a-squoosh.webp'',
          worldOverwrite\<lparr>draws := 1,
            files := [''/out/a-squoosh.webp'' \<mapsto> ''new'', ''/in/a.webp'' \<mapsto> ''new'']\<rparr>)],
        Inr (),
        worldOverwrite\<lparr>draws := 1,
          files := [''/out/a-squoosh.webp'' \<mapsto> ''new'', ''/in/a.webp'' \<mapsto> ''new'']\<rparr>)"
proof -
  let ?T = "''/out/a-squoosh.webp''"
  let ?temp = "''/out/a-squoosh.webp.tmp-1-0-0''"
  let ?w2 = "worldStaleTemp\<lparr>draws := 1\<rparr>"
  let ?w4 = "worldOverwrite\<lparr>draws := 1,
          files := [''/out/a-squoosh.webp'' \<mapsto> ''new'', ''/in/a.webp'' \<mapsto> ''new'']\<rparr>"
  let ?last = "\<lambda>tempPath. andThen (fs_copyFile envNode16 ?temp tempPath)
      (\<lambda>_. fs_rename envNode16 tempPath ?T)"
  let ?rest = "\<lambda>_ :: unit. andThen (getTempPath envNode16 ?T) ?last"
  have w: "files worldStaleTemp ?temp = Some ''new''" "files worldStaleTemp ''/out'' = None"
    "dirs worldStaleTemp = {''/in'', ''/out''}" "draws worldStaleTemp = 0"
    by (simp_all add: worldStaleTemp_def worldOverwrite_def)
  have "makeDirs envNode16 (ancestors ''/out'' @ [''/out'']) worldStaleTemp
          = (None, worldStaleTemp\<lparr>dirs := dirs worldStaleTemp \<union> {''/out''}\<rparr>)"
    unfolding example_ancestors using w(2) by (simp add: example_realpaths)
  moreover have "dirs worldStaleTemp \<union> {''/out''} = dirs worldStaleTemp"
    unfolding w(3) by auto
  then have "worldStaleTemp\<lparr>dirs := dirs worldStaleTemp \<union> {''/out''}\<rparr> = worldStaleTemp"
    by simp
  ultimately have m: "ensureDir envNode16 (path_dirname ?T) worldStaleTemp
      = ([(Mkdir ''/out'', worldStaleTemp)], Inr (), worldStaleTemp)"
    unfolding ensureDir_def fs_mkdir_recursive_def example_dirname by simp
  have t: "getTempPath envNode16 ?T worldStaleTemp = ([], Inr ?temp, ?w2)"
    unfolding drawn_temp w(4) example_temp by simp
  have open2: "refused envNode16 ?w2 ?temp = None" "refused envNode16 ?w2 ?T = None"
    unfolding refused_None example_ancestors directory_def
    by (simp_all add: w(3) example_realpaths)
  have nodir2: "\<not> directory ?w2 (realpath envNode16 ?temp)"
    "\<not> directory ?w2 (realpath envNode16 ?T)"
    unfolding example_realpaths directory_def by (simp_all add: w(3))
  have held: "files ?w2 (realpath envNode16 ?temp) = Some ''new''"
    unfolding example_realpaths using w(1) by simp
  have "fs_readFile envNode16 ?temp ?w2 = ([], Inr ''new'', ?w2)"
    using open2(1) nodir2(1) held by (rule readFile_ok)
  then have c: "fs_copyFile envNode16 ?temp ?temp ?w2 = ([], Inr (), ?w2)"
    unfolding fs_copyFile_def by (simp add: andThen_def returnIO_def)
  have nd: "\<not> namesDirectory ?T"
    unfolding example_paths by (rule names_not_directory) (simp_all add: isName_def)
  have "(files ?w2)(realpath envNode16 ?temp := None, realpath envNode16 ?T \<mapsto> ''new'')
      = [''/out/a-squoosh.webp'' \<mapsto> ''new'', ''/in/a.webp'' \<mapsto> ''new'']"
    unfolding example_realpaths by (auto simp: worldStaleTemp_def worldOverwrite_def)
  then have "?w2\<lparr>files := (files ?w2)(realpath envNode16 ?temp := None,
                                         realpath envNode16 ?T \<mapsto> ''new'')\<rparr> = ?w4"
    by (simp add: worldStaleTemp_def)
  with rename_ok [OF open2(1) nodir2(1) held open2(2) nd nodir2(2)]
  have rn: "fs_rename envNode16 ?temp ?T ?w2 = ([(Rename ?temp ?T, ?w4)], Inr (), ?w4)"
    by (simp only:)
  from andThen_Inr [where m = "fs_copyFile envNode16 ?temp ?temp" and w = ?w2
      and f = "\<lambda>_. fs_rename envNode16 ?temp ?T", OF c rn]
  have "andThen (fs_copyFile envNode16 ?temp ?temp) (\<lambda>_. fs_rename envNode16 ?temp ?T) ?w2
          = ([(Rename ?temp ?T, ?w4)], Inr (), ?w4)"
    by simp
  from andThen_Inr [where m = "getTempPath envNode16 ?T" and w = worldStaleTemp and f = ?last,
      OF t this]
  have "andThen (getTempPath envNode16 ?T) ?last worldStaleTemp
          = ([(Rename ?temp ?T, ?w4)], Inr (), ?w4)"
    by simp
  from andThen_Inr [where m = "ensureDir envNode16 (path_dirname ?T)" and w = worldStaleTemp
      and f = ?rest, OF m this]
  show ?thesis
    unfolding copyFileAtomic_def by simp
qed

lemma stuck_clock_temp:
  "getTempPath envClockStuck ''/out/a-squoosh.webp'' w
     = ([], Inr ''/out/a-squoosh.webp.tmp-1-0-7'', w\<lparr>draws := Suc (draws w)\<rparr>)"
  by (simp add: getTempPath_def stamp_def envClockStuck_def envNode16_def decimal.simps
      hexDigits_def)

text \<open>
  Claim C1 as stated fails in four places.

  The target of a write may exist already (a second run over the same folder): until the
  rename it holds its old content, which is neither nothing nor the final content. The
  run below succeeds, and after its first write event the target still holds \<^verbatim>\<open>old\<close>.

  A target path that ends in a separator is extended to a path inside it, not beside it:
  for \<^verbatim>\<open>out/\<close> the temporary path lies in \<^verbatim>\<open>out\<close>, the target in \<^verbatim>\<open>.\<close>.

  The temporary name is unique only as far as the process id, the clock and the random
  digits make it so: where the clock stands still and the random digits repeat, two calls
  of \<^verbatim>\<open>getTempPath\<close>, the second in the world the first has left, return the same path.

  When the source of a copy is the temporary file itself, nothing is written: the only
  events are the directory made and the rename.
\<close>

theorem atomic_write_keeps_old_content_until_rename:
  "fst (snd (writeFileAtomic envNode16 ''/out/a-squoosh.webp'' ''new'' worldOverwrite))
     = Inr ()
   \<and> fst (writeFileAtomic envNode16 ''/out/a-squoosh.webp'' ''new'' worldOverwrite) ! 1
        = (Write ''/out/a-squoosh.webp.tmp-1-0-0'' [],
           worldOverwrite\<lparr>draws := 1,
             files := (files worldOverwrite)(''/out/a-squoosh.webp.tmp-1-0-0'' \<mapsto> [])\<rparr>)
   \<and> files (snd (fst (writeFileAtomic envNode16 ''/out/a-squoosh.webp'' ''new''
                        worldOverwrite) ! 1)) ''/out/a-squoosh.webp'' = Some ''old''
   \<and> path_dirname (tempPathAt envNode16 ''out/'' 0) = ''out''
   \<and> path_dirname ''out/'' = ''.''
   \<and> fst (snd (getTempPath envClockStuck ''/out/a-squoosh.webp'' worldOverwrite))
        = Inr ''/out/a-squoosh.webp.tmp-1-0-7''
   \<and> fst (snd (getTempPath envClockStuck ''/out/a-squoosh.webp''
                  (snd (snd (getTempPath envClockStuck ''/out/a-squoosh.webp'' worldOverwrite)))))
        = Inr ''/out/a-squoosh.webp.tmp-1-0-7''
   \<and> files worldStaleTemp ''/out/a-squoosh.webp.tmp-1-0-0'' = Some ''new''
   \<and> fst (snd (copyFileAtomic envNode16 ''/out/a-squoosh.webp.tmp-1-0-0''
                  ''/out/a-squoosh.webp'' worldStaleTemp)) = Inr ()
   \<and> map fst (fst (copyFileAtomic envNode16 ''/out/a-squoosh.webp.tmp-1-0-0''
                      ''/out/a-squoosh.webp'' worldStaleTemp))
        = [Mkdir ''/out'',
           Rename ''/out/a-squoosh.webp.tmp-1-0-0'' ''/out/a-squoosh.webp'']"
  unfolding overwrite_run stale_temp_run stuck_clock_temp
  by (simp add: writeStates_def example_realpaths worldOverwrite_def worldStaleTemp_def
      tempPathAt_def path_dirname_def stamp_def envNode16_def decimal.simps hexDigits_def)

lemma write_succeeds_summary:
  assumes "target = absolute (ds @ [b])" "\<forall>s \<in> set (ds @ [b]). isName s"
    and "\<forall>a \<in> set (ancestors (path_dirname target) @ [path_dirname target]). files w a = None"
    and "target \<notin> dirs w" "tempPathAt e target (draws w) \<notin> dirs w"
  shows "case writeFileAtomic e target data w of
           (seen, r, w') \<Rightarrow>
             r = Inr ()
             \<and> map fst seen = writePlan target (tempPathAt e target (draws w)) data
             \<and> files w' = (files w)(tempPathAt e target (draws w) := None, target \<mapsto> data)"
  using assms(3-) unfolding assms(1)
  by (simp add: writeFileAtomic_succeeds [OF assms(2)] writePlan_def writeStates_events)

text \<open>
  Claim C1, amended. \<^verbatim>\<open>getTempPath\<close> returns the target path extended by \<^verbatim>\<open>.tmp-\<close> and a
  stamp. For every target path, content and world, \<^verbatim>\<open>writeFileAtomic\<close> places the content
  atomically (\<open>placedAtomically\<close>): the events are the parent directory made, then the
  temporary file written, then the rename onto the target, cut short only by a failure;
  the target is never written, and in every world that can be observed, and at the end,
  it holds what it held before the call or the whole content, which it does hold when
  the call succeeds. \<^verbatim>\<open>copyFileAtomic\<close> does the same with the content of a source that is
  not the temporary file itself, and changes no file when there is no source; when the
  source can be read, it does exactly what \<^verbatim>\<open>writeFileAtomic\<close> does with the content of
  the source. The call does succeed, with all the events of the plan, leaving the content
  at the target and no temporary file, when the target is the absolute, normalized path
  of a file (components \<open>ds\<close> and then \<open>b\<close>, each a name), no regular file is in the place
  of its parent directory or of a directory on the way there, and neither the target nor
  the temporary path is a directory.

  The temporary path is never the target's own file, and the piece added to the target
  path has no separator, so that it lies in the directory of the target whenever the
  target path does not end in a separator. Two temporary paths for one target are the
  same exactly when process id, clock value and random digits are all the same.
\<close>

theorem atomic_write_never_partial:
  "getTempPath e target w
     = ([], Inr (tempPathAt e target (draws w)), w\<lparr>draws := Suc (draws w)\<rparr>)
   \<and> placedAtomically e target (tempPathAt e target (draws w)) data w
        (writeFileAtomic e target data w)
   \<and> (files w (realpath e source) = Some data
        \<and> realpath e source \<noteq> realpath e (tempPathAt e target (draws w)) \<longrightarrow>
        placedAtomically e target (tempPathAt e target (draws w)) data w
          (copyFileAtomic e source target w))
   \<and> (files w (realpath e source) = None \<longrightarrow>
        (case copyFileAtomic e source target w of
           (seen, r, w') \<Rightarrow>
             r \<noteq> Inr () \<and> files w' = files w
             \<and> (\<forall>s \<in> set (map snd seen). files s = files w)))
   \<and> (fs_readFile e source w = ([], Inr data, w)
        \<and> realpath e source \<noteq> realpath e (tempPathAt e target (draws w)) \<longrightarrow>
        copyFileAtomic e source target w = writeFileAtomic e target data w)
   \<and> (target = absolute (ds @ [b]) \<and> (\<forall>s \<in> set (ds @ [b]). isName s)
        \<and> (\<forall>a \<in> set (ancestors (path_dirname target) @ [path_dirname target]).
              files w a = None)
        \<and> target \<notin> dirs w \<and> tempPathAt e target (draws w) \<notin> dirs w \<longrightarrow>
        (case writeFileAtomic e target data w of
           (seen, r, w') \<Rightarrow>
             r = Inr ()
             \<and> map fst seen = writePlan target (tempPathAt e target (draws w)) data
             \<and> files w' = (files w)(tempPathAt e target (draws w) := None, target \<mapsto> data)))
   \<and> realpath e (tempPathAt e target (draws w)) \<noteq> realpath e target
   \<and> CHR ''/'' \<notin> set (''.tmp-'' @ stamp e (draws w))
   \<and> (target = [] \<or> last target \<noteq> CHR ''/'' \<longrightarrow>
        path_dirname (tempPathAt e target (draws w)) = path_dirname target)
   \<and> (tempPathAt e target n = tempPathAt e' target n'
        \<longleftrightarrow> pid e = pid e' \<and> dateNow e n = dateNow e' n'
            \<and> hexDigits (randomHex e n) = hexDigits (randomHex e' n'))"
proof -
  let ?temp = "tempPathAt e target (draws w)"
  have t: "getTempPath e target w = ([], Inr ?temp, w\<lparr>draws := Suc (draws w)\<rparr>)"
    by (rule drawn_temp)
  have a: "placedAtomically e target ?temp data w (writeFileAtomic e target data w)"
    by (rule write_placedAtomically)
  have b: "files w (realpath e source) = Some data \<and> realpath e source \<noteq> realpath e ?temp \<longrightarrow>
      placedAtomically e target ?temp data w (copyFileAtomic e source target w)"
    by (intro impI, elim conjE) (rule copy_placedAtomically)
  have c: "files w (realpath e source) = None \<longrightarrow>
        (case copyFileAtomic e source target w of
           (seen, r, w') \<Rightarrow>
             r \<noteq> Inr () \<and> files w' = files w
             \<and> (\<forall>s \<in> set (map snd seen). files s = files w))"
    by (intro impI) (rule copy_source_missing)
  have d: "fs_readFile e source w = ([], Inr data, w)
        \<and> realpath e source \<noteq> realpath e ?temp \<longrightarrow>
        copyFileAtomic e source target w = writeFileAtomic e target data w"
    by (intro impI, elim conjE) (rule copy_is_write)
  have s: "target = absolute (ds @ [b]) \<and> (\<forall>s \<in> set (ds @ [b]). isName s)
        \<and> (\<forall>a \<in> set (ancestors (path_dirname target) @ [path_dirname target]).
              files w a = None)
        \<and> target \<notin> dirs w \<and> ?temp \<notin> dirs w \<longrightarrow>
        (case writeFileAtomic e target data w of
           (seen, r, w') \<Rightarrow>
             r = Inr ()
             \<and> map fst seen = writePlan target ?temp data
             \<and> files w' = (files w)(?temp := None, target \<mapsto> data))"
    by (intro impI, elim conjE) (rule write_succeeds_summary)
  have o: "realpath e ?temp \<noteq> realpath e target"
    by (rule temp_is_another_file)
  have f: "CHR ''/'' \<notin> set (''.tmp-'' @ stamp e (draws w))"
    by (rule stamp_no_separator)
  have g: "target = [] \<or> last target \<noteq> CHR ''/'' \<longrightarrow>
        path_dirname ?temp = path_dirname target"
  proof
    assume "target = [] \<or> last target \<noteq> CHR ''/''"
    with _ f show "path_dirname ?temp = path_dirname target"
      unfolding tempPathAt_def by (rule dirname_extended) simp
  qed
  have u: "tempPathAt e target n = tempPathAt e' target n'
        \<longleftrightarrow> pid e = pid e' \<and> dateNow e n = dateNow e' n'
            \<and> hexDigits (randomHex e n) = hexDigits (randomHex e' n')"
    by (rule temp_eq_iff)
  show ?thesis
    using t a b c d s o f g u by (intro conjI)
qed

theorem atomic_write_never_partial_witness:
  "fs_readFile envNode16 ''/in/a.webp'' worldOverwrite = ([], Inr ''new'', worldOverwrite)
   \<and> files worldOverwrite (realpath envNode16 ''/in/a.webp'') = Some ''new''
   \<and> realpath envNode16 ''/in/a.webp'' \<noteq> realpath envNode16 ''/out/a-squoosh.webp.tmp-1-0-0''
   \<and> ''/out/a-squoosh.webp'' = absolute ([''out''] @ [''a-squoosh.webp''])
   \<and> isName ''out'' \<and> isName ''a-squoosh.webp''
   \<and> files worldOverwrite ''/out'' = None
   \<and> ''/out/a-squoosh.webp'' \<notin> dirs worldOverwrite
   \<and> ''/out/a-squoosh.webp.tmp-1-0-0'' \<notin> dirs worldOverwrite
   \<and> last ''/out/a-squoosh.webp'' \<noteq> CHR ''/''
   \<and> fst (snd (writeFileAtomic envNode16 ''/out/a-squoosh.webp'' ''new'' worldOverwrite))
        = Inr ()
   \<and> fst (snd (copyFileAtomic envNode16 ''/in/a.webp'' ''/out/a-squoosh.webp''
                  worldOverwrite)) = Inr ()
   \<and> map fst (fst (copyFileAtomic envNode16 ''/in/a.webp'' ''/out/a-squoosh.webp''
                      worldOverwrite))
        = writePlan ''/out/a-squoosh.webp'' ''/out/a-squoosh.webp.tmp-1-0-0'' ''new''
   \<and> files (snd (snd (copyFileAtomic envNode16 ''/in/a.webp'' ''/out/a-squoosh.webp''
                        worldOverwrite)))
        = (files worldOverwrite)(''/out/a-squoosh.webp.tmp-1-0-0'' := None,
                                  ''/out/a-squoosh.webp'' \<mapsto> ''new'')
   \<and> placedAtomically envNode16 ''/out/a-squoosh.webp'' ''/out/a-squoosh.webp.tmp-1-0-0''
        ''new'' worldOverwrite
        (copyFileAtomic envNode16 ''/in/a.webp'' ''/out/a-squoosh.webp'' worldOverwrite)
   \<and> path_dirname ''/out/a-squoosh.webp.tmp-1-0-0'' = path_dirname ''/out/a-squoosh.webp''"
proof -
  let ?T = "''/out/a-squoosh.webp''"
  let ?S = "''/in/a.webp''"
  let ?temp = "''/out/a-squoosh.webp.tmp-1-0-0''"
  have d0: "draws worldOverwrite = 0"
    by (simp add: worldOverwrite_def)
  have src: "fs_readFile envNode16 ?S worldOverwrite = ([], Inr ''new'', worldOverwrite)"
    by (rule overwrite_source)
  have held: "files worldOverwrite (realpath envNode16 ?S) = Some ''new''"
    unfolding example_realpaths by (simp add: worldOverwrite_def)
  have other: "realpath envNode16 ?S \<noteq> realpath envNode16 ?temp"
    unfolding example_realpaths by simp
  have shape: "?T = absolute ([''out''] @ [''a-squoosh.webp''])"
    by (rule example_paths)
  have n1: "isName ''out''" and n2: "isName ''a-squoosh.webp''"
    by (simp_all add: isName_def)
  then have names: "\<forall>s \<in> set ([''out''] @ [''a-squoosh.webp'']). isName s"
    by simp
  have free: "files worldOverwrite ''/out'' = None"
    and nodir: "?T \<notin> dirs worldOverwrite" "?temp \<notin> dirs worldOverwrite"
    by (simp_all add: worldOverwrite_def)
  from free have free': "\<forall>a \<in> set (ancestors ''/out'' @ [''/out'']). files worldOverwrite a = None"
    unfolding example_ancestors by simp
  have isfile: "?T = [] \<or> last ?T \<noteq> CHR ''/''"
    by simp
  note t = atomic_write_never_partial
    [of envNode16 ?T worldOverwrite "''new''" ?S "[''out'']" "''a-squoosh.webp''",
     unfolded d0 example_temp example_dirname]
  from t [THEN conjunct2, THEN conjunct2, THEN conjunct2, THEN conjunct2, THEN conjunct1,
      THEN mp, OF conjI [OF src other]]
  have same: "copyFileAtomic envNode16 ?S ?T worldOverwrite
      = writeFileAtomic envNode16 ?T ''new'' worldOverwrite" .
  from t [THEN conjunct2, THEN conjunct2, THEN conjunct2, THEN conjunct2, THEN conjunct2,
      THEN conjunct1, THEN mp,
      OF conjI [OF shape conjI [OF names conjI [OF free' conjI [OF nodir]]]]]
  have ok: "case writeFileAtomic envNode16 ?T ''new'' worldOverwrite of
           (seen, r, w') \<Rightarrow>
             r = Inr () \<and> map fst seen = writePlan ?T ?temp ''new''
             \<and> files w' = (files worldOverwrite)(?temp := None, ?T \<mapsto> ''new'')" .
  from t [THEN conjunct2, THEN conjunct2, THEN conjunct1, THEN mp, OF conjI [OF held other]]
  have placed: "placedAtomically envNode16 ?T ?temp ''new'' worldOverwrite
      (copyFileAtomic envNode16 ?S ?T worldOverwrite)" .
  from t [THEN conjunct2, THEN conjunct2, THEN conjunct2, THEN conjunct2, THEN conjunct2,
      THEN conjunct2, THEN conjunct2, THEN conjunct2, THEN conjunct1, THEN mp, OF isfile]
  have sib: "path_dirname ?temp = path_dirname ?T"
    unfolding example_dirname .
  from ok have rw: "fst (snd (writeFileAtomic envNode16 ?T ''new'' worldOverwrite)) = Inr ()"
    by (simp add: case_prod_beta)
  from ok [folded same]
  have rc: "fst (snd (copyFileAtomic envNode16 ?S ?T worldOverwrite)) = Inr ()"
    and ev: "map fst (fst (copyFileAtomic envNode16 ?S ?T worldOverwrite))
       = writePlan ?T ?temp ''new''"
    and fl: "files (snd (snd (copyFileAtomic envNode16 ?S ?T worldOverwrite)))
       = (files worldOverwrite)(?temp := None, ?T \<mapsto> ''new'')"
    by (simp_all add: case_prod_beta)
  have lastT: "last ?T \<noteq> CHR ''/''"
    by simp
  show ?thesis
    using src held other shape n1 n2 free nodir lastT rw rc ev fl placed sib
    by (intro conjI)
qed

section \<open>Properties of the output path resolver\<close>

lemma splitExt_stem: "set (fst (splitExt b)) \<subseteq> set b"
  unfolding splitExt_def Let_def by (auto dest: in_set_takeD)

lemma fileName_isName:
  assumes "isName b" "CHR ''/'' \<notin> set x"
  shows "isName (path_parse_name b @ ''-squoosh.'' @ x)"
proof -
  have "set (path_parse_name b) \<subseteq> set b"
    unfolding parse_name_plain [OF assms(1)] by (rule splitExt_stem)
  moreover have "CHR ''/'' \<notin> set b"
    using assms(1) by (simp add: isName_def)
  ultimately have sf: "CHR ''/'' \<notin> set (path_parse_name b @ ''-squoosh.'' @ x)"
    using assms(2) by auto
  have "length (path_parse_name b @ ''-squoosh.'' @ x) \<ge> 9"
    by simp
  then have "path_parse_name b @ ''-squoosh.'' @ x \<noteq> []"
    "path_parse_name b @ ''-squoosh.'' @ x \<noteq> ''.''"
    "path_parse_name b @ ''-squoosh.'' @ x \<noteq> ''..''"
    by (auto dest: arg_cong [where f = length])
  with sf show ?thesis
    unfolding isName_def by blast
qed

lemma joinSlash_with_last:
  "fn \<noteq> [] \<Longrightarrow> joinSlash (xs @ [fn]) \<noteq> [] \<and> last (joinSlash (xs @ [fn])) = last fn"
proof (induction xs rule: joinSlash.induct)
  case 1
  then show ?case by simp
next
  case (2 s)
  then show ?case by simp
next
  case (3 s t ss)
  then show ?case by simp
qed

lemma normalize_reldir:
  assumes "\<forall>s \<in> set ds. isName s"
  shows "foldl (normStep b) acc (splitSlash (if ds = [] then ''.'' else joinSlash ds)) = acc @ ds"
proof (cases "ds = []")
  case True
  then show ?thesis by (simp add: normStep_skip)
next
  case False
  then show ?thesis
    using normalize_names [OF assms, of b acc] by simp
qed

lemma normalize_joined:
  assumes "p \<noteq> []" "last p \<noteq> CHR ''/''"
    and "normalizeSegments (\<not> (hd p = CHR ''/'')) p = segs" "joinSlash segs \<noteq> []"
  shows "path_normalize p =
     (if hd p = CHR ''/'' then CHR ''/'' # joinSlash segs else joinSlash segs)"
  unfolding path_normalize_def Let_def normalizeString_def assms(3)
  using assms(1,2,4) by simp

lemma join_mirror:
  assumes ds: "\<forall>s \<in> set ds. isName s" and fn: "isName fn"
  shows "path_join [out, if ds = [] then ''.'' else joinSlash ds, fn] =
     (if out \<noteq> [] \<and> hd out = CHR ''/''
      then CHR ''/'' # joinSlash (normalizeSegments False out @ ds @ [fn])
      else joinSlash (normalizeSegments True out @ ds @ [fn]))"
proof -
  define D where "D = (if ds = [] then ''.'' else joinSlash ds)"
  have fne: "fn \<noteq> []" and flast: "last fn \<noteq> CHR ''/''"
    using name_ends [OF fn] by simp_all
  have Dne: "D \<noteq> []" and Dhd: "hd D \<noteq> CHR ''/''"
    unfolding D_def using joinSlash_names_start [OF _ ds] by (cases "ds = []"; simp)+
  have fnsplit: "splitSlash fn = [fn]"
    using fn by (simp add: splitSlash_of_name isName_def)
  have tail: "foldl (normStep b) acc (splitSlash (D @ CHR ''/'' # fn)) = acc @ ds @ [fn]" for b acc
    unfolding splitSlash_append foldl_append D_def normalize_reldir [OF ds] fnsplit
    using fn by (simp add: normStep_name)
  have res: "joinSlash (st @ ds @ [fn]) \<noteq> []" for st
    using joinSlash_with_last [OF fne, of "st @ ds"] by simp
  show ?thesis
  proof (cases "out = []")
    case True
    define p where "p = D @ CHR ''/'' # fn"
    have parts: "filter (\<lambda>arg. arg \<noteq> []) [out, D, fn] = [D, fn]"
      using True Dne fne by simp
    have joined: "joinSlash [D, fn] = p"
      unfolding p_def by simp
    have j1: "p \<noteq> []" and j2: "hd p \<noteq> CHR ''/''" and j3: "last p \<noteq> CHR ''/''"
      unfolding p_def using Dne Dhd fne flast by simp_all
    have "normalizeSegments True p = ds @ [fn]"
      using tail [of True "[]"] unfolding normalizeSegments_def p_def by simp
    then have segs: "normalizeSegments (\<not> (hd p = CHR ''/'')) p = ds @ [fn]"
      using j2 by simp
    have "path_normalize p = joinSlash (ds @ [fn])"
      using normalize_joined [OF j1 j3 segs] res [of "[]"] j2 by simp
    then have "path_join [out, D, fn] = joinSlash (ds @ [fn])"
      unfolding path_join_def Let_def parts joined by simp
    then show ?thesis
      unfolding D_def using True by (simp add: normalizeSegments_empty)
  next
    case False
    define p where "p = out @ CHR ''/'' # D @ CHR ''/'' # fn"
    have parts: "filter (\<lambda>arg. arg \<noteq> []) [out, D, fn] = [out, D, fn]"
      using False Dne fne by simp
    have joined: "joinSlash [out, D, fn] = p"
      unfolding p_def by simp
    have j1: "p \<noteq> []" and j2: "hd p = hd out" and j3: "last p \<noteq> CHR ''/''"
      unfolding p_def using False fne flast by simp_all
    have segs: "normalizeSegments b p = normalizeSegments b out @ ds @ [fn]" for b
      unfolding p_def normalizeSegments_append tail by (rule refl)
    have "path_normalize p =
      (if hd p = CHR ''/''
       then CHR ''/'' # joinSlash (normalizeSegments (\<not> (hd p = CHR ''/'')) out @ ds @ [fn])
       else joinSlash (normalizeSegments (\<not> (hd p = CHR ''/'')) out @ ds @ [fn]))"
      using normalize_joined [OF j1 j3 segs res] .
    then have "path_normalize p =
      (if hd out = CHR ''/''
       then CHR ''/'' # joinSlash (normalizeSegments False out @ ds @ [fn])
       else joinSlash (normalizeSegments True out @ ds @ [fn]))"
      unfolding j2 by (cases "hd out = CHR ''/''") simp_all
    then have "path_join [out, D, fn] =
      (if hd out = CHR ''/''
       then CHR ''/'' # joinSlash (normalizeSegments False out @ ds @ [fn])
       else joinSlash (normalizeSegments True out @ ds @ [fn]))"
      unfolding path_join_def Let_def parts joined by simp
    then show ?thesis
      unfolding D_def using False by simp
  qed
qed

lemma build_mirror:
  assumes rs: "\<forall>s \<in> set rs. isName s" and ds: "\<forall>s \<in> set (ds @ [b]). isName s"
    and x: "CHR ''/'' \<notin> set x"
  shows "buildOutputPath e \<lparr> inputRoot = absolute rs, outputRoot = out, isDirectory = True,
                             inputFile = absolute (rs @ ds @ [b]), outputExt = x \<rparr> =
     (if out \<noteq> [] \<and> hd out = CHR ''/''
      then CHR ''/'' # joinSlash (normalizeSegments False out @ ds
                                 @ [path_parse_name b @ ''-squoosh.'' @ x])
      else joinSlash (normalizeSegments True out @ ds
                      @ [path_parse_name b @ ''-squoosh.'' @ x]))"
proof -
  have dn: "\<forall>s \<in> set ds. isName s" and bn: "isName b"
    using ds by simp_all
  have name: "path_parse_name (absolute (rs @ ds @ [b])) = path_parse_name b"
    using parse_name_of_file [OF bn, of "rs @ ds"] by simp
  have rel: "path_relative (cwd e) (absolute rs) (absolute (rs @ ds @ [b])) = joinSlash (ds @ [b])"
    using rs ds by (intro relative_under_root) simp_all
  have dir: "path_dirname (joinSlash (ds @ [b])) = (if ds = [] then ''.'' else joinSlash ds)"
    using dn bn by (rule dirname_relative)
  have fn: "isName (path_parse_name b @ ''-squoosh.'' @ x)"
    using bn x by (rule fileName_isName)
  show ?thesis
    unfolding buildOutputPath_def Let_def
    by (simp only: roots.simps output_params.simps name rel dir join_mirror [OF dn fn] if_False
        not_True_eq_False)
qed


text \<open>
  Claim C2 as stated fails: the output name is the input name without its extension, so
  two files of one directory that differ only in their extension get the same output
  path for the same format. \<^verbatim>\<open>/in/a.png\<close> and \<^verbatim>\<open>/in/a.jpg\<close> both map to
  \<^verbatim>\<open>/out/a-squoosh.webp\<close>.
\<close>

theorem same_stem_inputs_share_output:
  "''/in/a.png'' \<noteq> ''/in/a.jpg''
   \<and> buildOutputPath envNode16
        \<lparr> inputRoot = ''/in'', outputRoot = ''/out'', isDirectory = True,
          inputFile = ''/in/a.png'', outputExt = ''webp'' \<rparr> = ''/out/a-squoosh.webp''
   \<and> buildOutputPath envNode16
        \<lparr> inputRoot = ''/in'', outputRoot = ''/out'', isDirectory = True,
          inputFile = ''/in/a.jpg'', outputExt = ''webp'' \<rparr> = ''/out/a-squoosh.webp''"
  by code_simp

text \<open>
  Claim C2, amended. Take an input root with components \<open>rs\<close>, two files under it, in
  the directories \<open>ds1\<close> and \<open>ds2\<close> below the root and with the names \<open>b1\<close> and \<open>b2\<close>,
  any output root, and an extension without separator. With the directory structure
  preserved, the two output paths are equal exactly when the files lie in the same
  directory and their names agree up to the extension. So two inputs that differ in
  their directory or in their name without extension never share an output path.
\<close>

theorem outputs_differ_unless_same_dir_and_stem:
  assumes "\<forall>s \<in> set rs. isName s"
    and "\<forall>s \<in> set (ds1 @ [b1]). isName s"
    and "\<forall>s \<in> set (ds2 @ [b2]). isName s"
    and "CHR ''/'' \<notin> set x"
  shows "buildOutputPath e \<lparr> inputRoot = absolute rs, outputRoot = out, isDirectory = True,
                             inputFile = absolute (rs @ ds1 @ [b1]), outputExt = x \<rparr>
       = buildOutputPath e \<lparr> inputRoot = absolute rs, outputRoot = out, isDirectory = True,
                               inputFile = absolute (rs @ ds2 @ [b2]), outputExt = x \<rparr>
     \<longleftrightarrow> ds1 = ds2 \<and> path_parse_name b1 = path_parse_name b2"
proof -
  let ?f1 = "path_parse_name b1 @ ''-squoosh.'' @ x"
  let ?f2 = "path_parse_name b2 @ ''-squoosh.'' @ x"
  have b: "isName b1" "isName b2"
    using assms(2,3) by simp_all
  have f1: "isName ?f1"
    using b(1) assms(4) by (rule fileName_isName)
  have f2: "isName ?f2"
    using b(2) assms(4) by (rule fileName_isName)
  have names: "\<forall>s \<in> set ds1. CHR ''/'' \<notin> set s" "\<forall>s \<in> set ds2. CHR ''/'' \<notin> set s"
    "CHR ''/'' \<notin> set ?f1" "CHR ''/'' \<notin> set ?f2"
    using assms(2,3) f1 f2 by (simp_all add: isName_def)
  have inj: "joinSlash (st @ ds1 @ [?f1]) = joinSlash (st @ ds2 @ [?f2])
               \<longleftrightarrow> ds1 = ds2 \<and> path_parse_name b1 = path_parse_name b2"
    if st: "\<forall>s \<in> set st. s \<noteq> [] \<and> CHR ''/'' \<notin> set s" for st
  proof
    assume eq: "joinSlash (st @ ds1 @ [?f1]) = joinSlash (st @ ds2 @ [?f2])"
    have "st @ ds1 @ [?f1] = st @ ds2 @ [?f2]"
    proof (rule joinSlash_inject [OF _ _ _ _ eq])
      show "st @ ds1 @ [?f1] \<noteq> []" "st @ ds2 @ [?f2] \<noteq> []"
        by simp_all
      show "\<forall>s \<in> set (st @ ds1 @ [?f1]). CHR ''/'' \<notin> set s"
        using st names(1,3) by auto
      show "\<forall>s \<in> set (st @ ds2 @ [?f2]). CHR ''/'' \<notin> set s"
        using st names(2,4) by auto
    qed
    then show "ds1 = ds2 \<and> path_parse_name b1 = path_parse_name b2"
      by simp
  next
    assume "ds1 = ds2 \<and> path_parse_name b1 = path_parse_name b2"
    then show "joinSlash (st @ ds1 @ [?f1]) = joinSlash (st @ ds2 @ [?f2])"
      by simp
  qed
  show ?thesis
  proof (cases "out \<noteq> [] \<and> hd out = CHR ''/''")
    case True
    show ?thesis
      unfolding build_mirror [OF assms(1,2,4)] build_mirror [OF assms(1,3,4)] if_P [OF True]
        list.inject
      using inj [OF normalizeSegments_segments [of False out]] by simp
  next
    case False
    show ?thesis
      unfolding build_mirror [OF assms(1,2,4)] build_mirror [OF assms(1,3,4)] if_not_P [OF False]
      using inj [OF normalizeSegments_segments [of True out]] .
  qed
qed

theorem outputs_differ_unless_same_dir_and_stem_witness:
  "isName ''in'' \<and> isName ''x'' \<and> isName ''y'' \<and> isName ''a.png''
   \<and> CHR ''/'' \<notin> set ''webp''
   \<and> buildOutputPath envNode16
        \<lparr> inputRoot = ''/in'', outputRoot = ''/out'', isDirectory = True,
          inputFile = ''/in/x/a.png'', outputExt = ''webp'' \<rparr>
     \<noteq> buildOutputPath envNode16
        \<lparr> inputRoot = ''/in'', outputRoot = ''/out'', isDirectory = True,
          inputFile = ''/in/y/a.png'', outputExt = ''webp'' \<rparr>"
proof -
  have h1: "\<forall>s \<in> set [''in'']. isName s"
    and h2: "\<forall>s \<in> set ([''x''] @ [''a.png'']). isName s"
    and h3: "\<forall>s \<in> set ([''y''] @ [''a.png'']). isName s"
    and h4: "CHR ''/'' \<notin> set ''webp''"
    by (simp_all add: isName_def)
  have p: "absolute [''in''] = ''/in''" "absolute ([''in''] @ [''x''] @ [''a.png'']) = ''/in/x/a.png''"
    "absolute ([''in''] @ [''y''] @ [''a.png'']) = ''/in/y/a.png''"
    by (simp_all add: absolute_def)
  have "[''x''] \<noteq> [''y'']"
    by simp
  with outputs_differ_unless_same_dir_and_stem
    [OF h1 h2 h3 h4, of envNode16 "''/out''", unfolded p]
  have "buildOutputPath envNode16
        \<lparr> inputRoot = ''/in'', outputRoot = ''/out'', isDirectory = True,
          inputFile = ''/in/x/a.png'', outputExt = ''webp'' \<rparr>
     \<noteq> buildOutputPath envNode16
        \<lparr> inputRoot = ''/in'', outputRoot = ''/out'', isDirectory = True,
          inputFile = ''/in/y/a.png'', outputExt = ''webp'' \<rparr>"
    by simp
  moreover have "isName ''in''" "isName ''x''" "isName ''y''" "isName ''a.png''"
    using h1 h2 h3 by simp_all
  ultimately show ?thesis
    using h4 by (intro conjI)
qed
end
